theory Spec2Isabelle
  imports Complex_Main
begin

section \<open>Values shared by the whole program\<close>

text \<open>
  The program is a tkinter application (\<^verbatim>\<open>src/doc/gui.py\<close>) that drives an XY stage.
  Python exceptions are values of \<open>py_error\<close>. A method that mutates state returns an
  \<open>outcome\<close>: \<open>Done\<close> with the state it leaves, \<open>Raised\<close> with the exception and the
  state at the raise, or \<open>Blocked\<close> when the call is suspended in \<^verbatim>\<open>wait_variable\<close> and
  is never resumed.

  A Python \<^verbatim>\<open>str\<close> is represented by its UTF-8 encoding, a list of 8-bit characters, so
  that \<^verbatim>\<open>bytes(s, 'utf-8')\<close> is the identity and \<^verbatim>\<open>b.decode('utf-8')\<close> is the identity
  on well-formed input and raises otherwise.
\<close>

datatype py_error = ValueError | IndexError | TypeError | OverflowError | UnicodeDecodeError

datatype 's outcome = Done 's | Raised py_error 's | Blocked 's

fun state_of :: "'s outcome \<Rightarrow> 's" where
  "state_of (Done s) = s"
| "state_of (Raised e s) = s"
| "state_of (Blocked s) = s"

fun is_done :: "'s outcome \<Rightarrow> bool" where
  "is_done (Done s) = True"
| "is_done (Raised e s) = False"
| "is_done (Blocked s) = False"

fun is_blocked :: "'s outcome \<Rightarrow> bool" where
  "is_blocked (Done s) = False"
| "is_blocked (Raised e s) = False"
| "is_blocked (Blocked s) = True"

text \<open>Statement sequencing: the rest of a method body runs only after a normal return.\<close>

fun seq :: "'s outcome \<Rightarrow> ('s \<Rightarrow> 's outcome) \<Rightarrow> 's outcome" where
  "seq (Done s) f = f s"
| "seq (Raised e s) f = Raised e s"
| "seq (Blocked s) f = Blocked s"

definition CR :: char where "CR = CHR 0x0D"
definition LF :: char where "LF = CHR 0x0A"
definition NUL :: char where "NUL = CHR 0x00"
definition crlf :: string where "crlf = [CR, LF]"

text \<open>Indexing a Python sequence: a negative index counts from the end.\<close>

definition getitem :: "'a list \<Rightarrow> int \<Rightarrow> py_error + 'a" where
  "getitem xs i =
     (if 0 \<le> i \<and> i < int (length xs) then Inr (xs ! nat i)
      else if - int (length xs) \<le> i \<and> i < 0 then Inr (xs ! nat (int (length xs) + i))
      else Inl IndexError)"

definition setitem :: "'a list \<Rightarrow> int \<Rightarrow> 'a \<Rightarrow> py_error + 'a list" where
  "setitem xs i v =
     (if 0 \<le> i \<and> i < int (length xs) then Inr (xs[nat i := v])
      else if - int (length xs) \<le> i \<and> i < 0 then Inr (xs[nat (int (length xs) + i) := v])
      else Inl IndexError)"

subsection \<open>Strings and bytes\<close>

text \<open>
  \<^verbatim>\<open>bytes.splitlines()\<close> ends a line at \<^verbatim>\<open>\n\<close>, \<^verbatim>\<open>\r\<close> or \<^verbatim>\<open>\r\n\<close>; text after the
  last terminator is a line only when it is not empty.
\<close>

fun splitlines_from :: "string \<Rightarrow> string \<Rightarrow> string list" where
  "splitlines_from cur [] = (if cur = [] then [] else [cur])"
| "splitlines_from cur (c # cs) =
     (if c = LF then cur # splitlines_from [] cs
      else if c = CR then
        (case cs of
           [] \<Rightarrow> [cur]
         | d # ds \<Rightarrow> if d = LF then cur # splitlines_from [] ds else cur # splitlines_from [] cs)
      else splitlines_from (cur @ [c]) cs)"

definition splitlines :: "string \<Rightarrow> string list" where
  "splitlines s = splitlines_from [] s"

definition byte :: "char \<Rightarrow> nat" where
  "byte c = of_char c"

definition between :: "nat \<Rightarrow> nat \<Rightarrow> char \<Rightarrow> bool" where
  "between lo hi c = (lo \<le> byte c \<and> byte c \<le> hi)"

definition cont :: "char \<Rightarrow> bool" where
  "cont c = between 0x80 0xBF c"

text \<open>Well-formed UTF-8, as the strict decoder accepts it.\<close>

fun utf8_ok :: "string \<Rightarrow> bool" where
  "utf8_ok [] = True"
| "utf8_ok (a # bs) =
     (if byte a < 0x80 then utf8_ok bs
      else if between 0xC2 0xDF a then
        (case bs of b # r \<Rightarrow> cont b \<and> utf8_ok r | _ \<Rightarrow> False)
      else if between 0xE0 0xEF a then
        (case bs of
           b # c # r \<Rightarrow>
             (if byte a = 0xE0 then between 0xA0 0xBF b
              else if byte a = 0xED then between 0x80 0x9F b
              else cont b)
             \<and> cont c \<and> utf8_ok r
         | _ \<Rightarrow> False)
      else if between 0xF0 0xF4 a then
        (case bs of
           b # c # d # r \<Rightarrow>
             (if byte a = 0xF0 then between 0x90 0xBF b
              else if byte a = 0xF4 then between 0x80 0x8F b
              else cont b)
             \<and> cont c \<and> cont d \<and> utf8_ok r
         | _ \<Rightarrow> False)
      else False)"

definition decode_utf8 :: "string \<Rightarrow> py_error + string" where
  "decode_utf8 b = (if utf8_ok b then Inr b else Inl UnicodeDecodeError)"

text \<open>\<^verbatim>\<open>s.rstrip(chars)\<close>, \<^verbatim>\<open>s.strip(chars)\<close>; the characters stripped here are all ASCII.\<close>

definition rstrip :: "string \<Rightarrow> string \<Rightarrow> string" where
  "rstrip chars s = rev (dropWhile (\<lambda>c. c \<in> set chars) (rev s))"

definition strip :: "string \<Rightarrow> string \<Rightarrow> string" where
  "strip chars s = rstrip chars (dropWhile (\<lambda>c. c \<in> set chars) s)"

text \<open>
  Code points of a string in UTF-8: every byte that is not a continuation byte starts
  one. \<open>cp_tl\<close> is the slice \<^verbatim>\<open>s[1:]\<close>, \<open>cp_take n\<close> keeps the first \<open>n\<close> code points.
\<close>

definition cp_length :: "string \<Rightarrow> nat" where
  "cp_length s = length (filter (\<lambda>c. \<not> cont c) s)"

fun cp_tl :: "string \<Rightarrow> string" where
  "cp_tl [] = []"
| "cp_tl (c # cs) = dropWhile cont cs"

fun cp_take :: "nat \<Rightarrow> string \<Rightarrow> string" where
  "cp_take n [] = []"
| "cp_take n (c # cs) =
     (if cont c then c # cp_take n cs
      else (case n of 0 \<Rightarrow> [] | Suc m \<Rightarrow> c # cp_take m cs))"

text \<open>\<^verbatim>\<open>str(i)\<close> on an integer, used by the f-strings: decimal, unpadded.\<close>

definition digit_char :: "nat \<Rightarrow> char" where
  "digit_char d =
     (if d = 0 then CHR ''0'' else if d = 1 then CHR ''1'' else if d = 2 then CHR ''2''
      else if d = 3 then CHR ''3'' else if d = 4 then CHR ''4'' else if d = 5 then CHR ''5''
      else if d = 6 then CHR ''6'' else if d = 7 then CHR ''7'' else if d = 8 then CHR ''8''
      else CHR ''9'')"

fun digits :: "nat \<Rightarrow> string" where
  "digits n = (if n < 10 then [digit_char n] else digits (n div 10) @ [digit_char (n mod 10)])"

declare digits.simps [simp del]

definition py_str :: "int \<Rightarrow> string" where
  "py_str i = (if i < 0 then CHR ''-'' # digits (nat (- i)) else digits (nat i))"

section \<open>The location tables and their files\<close>

text \<open>
  A table entry is the list \<^verbatim>\<open>[row, col]\<close> of two command strings. The preset table is a
  Python list of lists; a table read from a file is a numpy array of shape (12, 2) whose
  element type is a fixed-width string: the width is the length of the longest string the
  array was built from, an element assigned later is cut to that width, and an element
  is read without its trailing NUL characters.
\<close>

type_synonym row = "string \<times> string"

datatype table = PyList "row list" | NdArray nat "row list"

fun rows_of :: "table \<Rightarrow> row list" where
  "rows_of (PyList rs) = rs"
| "rows_of (NdArray w rs) = rs"

definition np_elem :: "nat \<Rightarrow> string \<Rightarrow> string" where
  "np_elem w s = rstrip [NUL] (cp_take w s)"

fun pairs :: "'a list \<Rightarrow> ('a \<times> 'a) list" where
  "pairs (a # b # r) = (a, b) # pairs r"
| "pairs [a] = []"
| "pairs [] = []"

text \<open>\<^verbatim>\<open>np.array(string_values).reshape(12, 2)\<close>: ValueError unless there are 24 elements.\<close>

definition np_array_reshape_12_2 :: "string list \<Rightarrow> py_error + table" where
  "np_array_reshape_12_2 strs =
     (if length strs = 24
      then (let w = foldr max (map cp_length strs) 0
            in Inr (NdArray w (pairs (map (np_elem w) strs))))
      else Inl ValueError)"

definition preset_locations :: "row list" where
  "preset_locations =
     [(''g229000'' @ crlf, ''g10500'' @ crlf), (''g229000'' @ crlf, ''g110400'' @ crlf),
      (''g229000'' @ crlf, ''g120200'' @ crlf), (''g229000'' @ crlf, ''g130400'' @ crlf),
      (''g229000'' @ crlf, ''g140400'' @ crlf), (''g229000'' @ crlf, ''g150500'' @ crlf),
      (''g222100'' @ crlf, ''g150500'' @ crlf), (''g222100'' @ crlf, ''g140400'' @ crlf),
      (''g222100'' @ crlf, ''g130400'' @ crlf), (''g222100'' @ crlf, ''g120200'' @ crlf),
      (''g222100'' @ crlf, ''g110400'' @ crlf), (''g222100'' @ crlf, ''g10500'' @ crlf)]"

text \<open>
  The file system maps a path to the bytes of the file. \<open>read_sample_locs\<close> catches
  FileNotFoundError only; what it prints in that case is not recorded.
\<close>

fun decode_all :: "string list \<Rightarrow> py_error + string list" where
  "decode_all [] = Inr []"
| "decode_all (b # bs) =
     (case decode_utf8 b of
        Inl e \<Rightarrow> Inl e
      | Inr s \<Rightarrow> (case decode_all bs of Inl e \<Rightarrow> Inl e | Inr ss \<Rightarrow> Inr (rstrip [LF] s # ss)))"

definition read_sample_locs :: "(string \<rightharpoonup> string) \<Rightarrow> string \<Rightarrow> py_error + table" where
  "read_sample_locs fs filename =
     (case fs filename of
        None \<Rightarrow> Inr (PyList preset_locations)
      | Some content \<Rightarrow>
          (let byte_values = splitlines content;
               byte_values = filter (\<lambda>byte_value. byte_value \<noteq> []) byte_values
           in case decode_all byte_values of
                Inl e \<Rightarrow> Inl e
              | Inr string_values \<Rightarrow> np_array_reshape_12_2 string_values))"

definition convert_camera :: "string \<Rightarrow> int" where
  "convert_camera camera_get = (if camera_get = ''Left'' then 0 else 1)"

text \<open>
  The coordinate page. \<open>selected_sample\<close> holds what \<^verbatim>\<open>int(self.selected_sample.get())\<close>
  evaluates to, \<open>None\<close> where \<^verbatim>\<open>int\<close> raises ValueError (the entry may be empty).
\<close>

record SidePage =
  location_files :: "string list"
  selected_sample :: "int option"
  selected_camera :: string
  x_entry_var :: string
  y_entry_var :: string

definition new_SidePage :: SidePage where
  "new_SidePage =
     \<lparr>location_files = [''samples_loc.txt'', ''samples_loc.txt''],
      selected_sample = Some 1,
      selected_camera = ''Right'',
      x_entry_var = ''0500'',
      y_entry_var = ''29000''\<rparr>"

definition set_x_and_y :: "string \<Rightarrow> string \<Rightarrow> SidePage \<Rightarrow> SidePage" where
  "set_x_and_y col row sp =
     (let co_x = cp_tl (strip [CHR ''g'', CR, LF] col);
          co_y = cp_tl (strip [CHR ''g'', CR, LF] row)
      in sp\<lparr>x_entry_var := co_x, y_entry_var := co_y\<rparr>)"

fun table_set :: "table \<Rightarrow> int \<Rightarrow> row \<Rightarrow> py_error + table" where
  "table_set (PyList rs) i v =
     (case setitem rs i v of Inl e \<Rightarrow> Inl e | Inr rs' \<Rightarrow> Inr (PyList rs'))"
| "table_set (NdArray w rs) i v =
     (case setitem rs i (np_elem w (fst v), np_elem w (snd v)) of
        Inl e \<Rightarrow> Inl e
      | Inr rs' \<Rightarrow> Inr (NdArray w rs'))"

definition file_lines :: "row list \<Rightarrow> string" where
  "file_lines rs = concat (map (\<lambda>row. fst row @ crlf @ snd row @ crlf) rs)"

text \<open>
  \<open>save_locs\<close> opens the file for writing, which empties it, before it reads the table.
\<close>

definition save_locs ::
  "SidePage \<Rightarrow> table list \<Rightarrow> (string \<rightharpoonup> string) \<Rightarrow> (string \<rightharpoonup> string) outcome" where
  "save_locs sp locs fs =
     (let current_camera = convert_camera (selected_camera sp)
      in case getitem (location_files sp) current_camera of
           Inl e \<Rightarrow> Raised e fs
         | Inr path \<Rightarrow>
             (case getitem locs current_camera of
                Inl e \<Rightarrow> Raised e (fs(path \<mapsto> []))
              | Inr tab \<Rightarrow> Done (fs(path \<mapsto> file_lines (rows_of tab)))))"

definition update_locs ::
  "SidePage \<Rightarrow> table list \<times> (string \<rightharpoonup> string) \<Rightarrow> (table list \<times> (string \<rightharpoonup> string)) outcome" where
  "update_locs sp st =
     (let locs = fst st; fs = snd st;
          x = x_entry_var sp;
          y = y_entry_var sp
      in case selected_sample sp of
           None \<Rightarrow> Raised ValueError st
         | Some n \<Rightarrow>
             (let current_sample = n - 1;
                  current_camera = convert_camera (selected_camera sp);
                  row = ''g2'' @ y;
                  col = ''g1'' @ x
              in case getitem locs current_camera of
                   Inl e \<Rightarrow> Raised e st
                 | Inr tab \<Rightarrow>
                     (case table_set tab current_sample (row, col) of
                        Inl e \<Rightarrow> Raised e st
                      | Inr tab' \<Rightarrow>
                          (let locs' = locs[nat current_camera := tab']
                           in case save_locs sp locs' fs of
                                Done fs' \<Rightarrow> Done (locs', fs')
                              | Raised e fs' \<Rightarrow> Raised e (locs', fs')
                              | Blocked fs' \<Rightarrow> Blocked (locs', fs')))))"

section \<open>The run page and the capture cycle\<close>

text \<open>
  The application is single-threaded. \<open>RunPage.sleep\<close> schedules \<^verbatim>\<open>var.set\<close> with
  \<^verbatim>\<open>self.after\<close> and waits in \<^verbatim>\<open>wait_variable\<close>, which runs the event loop: the handlers
  of the user's actions run there, inside the sleeping call. The model keeps the pages in
  a store indexed by address, because \<open>stop_program\<close> replaces the page the controller
  shows by a new object while methods of the old one are still on the stack.

  \<open>phase_duration\<close>, \<open>phase1_interval\<close> and \<open>phase2_interval\<close> hold what \<^verbatim>\<open>int(var.get())\<close>
  evaluates to for the entry (\<open>None\<close>: ValueError). Times are microseconds. The trace
  records, in order, each \<^verbatim>\<open>sleep\<close> with its milliseconds, each read of a table entry
  \<^verbatim>\<open>locations[1][i]\<close> with the index and the two commands, each \<^verbatim>\<open>print\<close>, and the
  re-arming \<^verbatim>\<open>self.after(1000, self.run_cycle)\<close>. In the source the two serial writes and
  the capture call of a visit are commented out; the read, the two settle sleeps and the
  \<^verbatim>\<open>print('Going')\<close> in their place are what a visit executes.
\<close>

datatype event = Sleep int | Visit int string string | Print string | After int nat

record RunPage =
  count :: int
  sample_name :: int
  phase_duration :: "int option"
  phase1_interval :: "int option"
  phase2_interval :: "int option"
  running :: bool
  start_time :: "int option"
  info_label :: string
  run_button :: string
  entries_state :: string
  destroyed :: bool

text \<open>\<open>RunPage.__init__\<close> with \<open>create_run_page_ui\<close>.\<close>

definition new_RunPage :: RunPage where
  "new_RunPage =
     \<lparr>count = 0, sample_name = 0,
      phase_duration = Some 30, phase1_interval = Some 5, phase2_interval = Some 30,
      running = False, start_time = None,
      info_label = ''Wait for the XY stage to stop moving '' @ [LF] @ ''Then press start'',
      run_button = ''Start'', entries_state = ''normal'', destroyed = False\<rparr>"

text \<open>
  What the user can do while a cycle sleeps: let time pass (a timer fires late), press the
  button of the run page, choose a sample size from the menu, toggle the skip-row box,
  press the save button of the coordinate page. \<open>pending\<close> lists, for each coming
  suspension, the actions handled during it.
\<close>

datatype action = Tick nat | PressStop | SelectSampleSize int | ToggleSkipRow | SaveCoordinates

record App =
  locations :: "table list"
  files :: "string \<rightharpoonup> string"
  side :: SidePage
  selected_sample_size :: int
  skip_row :: int
  pages :: "nat \<Rightarrow> RunPage"
  frames_RunPage :: "nat option"
  fresh :: nat
  clock :: int
  trace :: "event list"
  pending :: "action list list"

definition upd_page :: "nat \<Rightarrow> (RunPage \<Rightarrow> RunPage) \<Rightarrow> App \<Rightarrow> App" where
  "upd_page p f a = a\<lparr>pages := (pages a)(p := f (pages a p))\<rparr>"

text \<open>
  \<open>App.create_runpage\<close>: the page in \<^verbatim>\<open>frames[RunPage]\<close> is removed and destroyed, a new
  \<open>RunPage\<close> object takes its place.
\<close>

definition create_runpage :: "App \<Rightarrow> App" where
  "create_runpage a =
     (let a = (case frames_RunPage a of
                 None \<Rightarrow> a
               | Some frame \<Rightarrow>
                   upd_page frame (\<lambda>p. p\<lparr>destroyed := True\<rparr>) (a\<lparr>frames_RunPage := None\<rparr>));
          frame = fresh a
      in a\<lparr>pages := (pages a)(frame := new_RunPage),
           frames_RunPage := Some frame,
           fresh := Suc frame\<rparr>)"

definition stop_program :: "nat \<Rightarrow> App \<Rightarrow> App" where
  "stop_program self a =
     (let a = upd_page self (\<lambda>p. p\<lparr>run_button := ''Start''\<rparr>) a;
          a = upd_page self
                (\<lambda>p. p\<lparr>info_label :=
                     ''Wait for the XY stage to stop moving '' @ [LF] @ ''Then press start''\<rparr>) a;
          a = upd_page self (\<lambda>p. p\<lparr>entries_state := ''normal''\<rparr>) a
      in create_runpage a)"

text \<open>
  The handlers. The button of the run page stops the program only while it reads Stop;
  an exception raised in a handler is reported by tkinter and the event loop goes on, so
  the state \<open>update_locs\<close> leaves is kept either way.
\<close>

fun handle :: "action \<Rightarrow> App \<Rightarrow> App" where
  "handle (Tick n) a = a\<lparr>clock := clock a + int n\<rparr>"
| "handle PressStop a =
     (case frames_RunPage a of
        None \<Rightarrow> a
      | Some p \<Rightarrow> if run_button (pages a p) = ''Stop'' then stop_program p a else a)"
| "handle (SelectSampleSize n) a =
     (if n \<in> {4, 6, 8, 10, 12} then a\<lparr>selected_sample_size := n\<rparr> else a)"
| "handle ToggleSkipRow a = a\<lparr>skip_row := 1 - skip_row a\<rparr>"
| "handle SaveCoordinates a =
     (let st = state_of (update_locs (side a) (locations a, files a))
      in a\<lparr>locations := fst st, files := snd st\<rparr>)"

text \<open>
  \<open>RunPage.sleep\<close>. \<^verbatim>\<open>destroy()\<close> deletes the Tcl commands the widget has registered, the
  pending \<^verbatim>\<open>after\<close> callback among them: when the page is destroyed during the wait, the
  variable is never set and \<^verbatim>\<open>wait_variable\<close> does not return.
\<close>

definition int_of_time :: "rat \<Rightarrow> int" where
  "int_of_time t = (if 0 \<le> t then \<lfloor>t\<rfloor> else \<lceil>t\<rceil>)"

definition sleep :: "nat \<Rightarrow> rat \<Rightarrow> App \<Rightarrow> App outcome" where
  "sleep self time a =
     (let ms = int_of_time (time * 1000);
          live = \<not> destroyed (pages a self);
          a = a\<lparr>trace := trace a @ [Sleep ms], clock := clock a + 1000 * max ms 0\<rparr>;
          a = (case pending a of
                 [] \<Rightarrow> a
               | acts # rest \<Rightarrow> fold handle acts (a\<lparr>pending := rest\<rparr>))
      in if live \<and> destroyed (pages a self) then Blocked a else Done a)"

text \<open>The body of the loop of \<open>goto_and_photo_row\<close> for one index, and the loop.\<close>

definition photo_body :: "nat \<Rightarrow> int \<Rightarrow> App \<Rightarrow> App outcome" where
  "photo_body self i a =
     (case getitem (locations a) 1 of
        Inl e \<Rightarrow> Raised e a
      | Inr tab \<Rightarrow>
          (case getitem (rows_of tab) i of
             Inl e \<Rightarrow> Raised e a
           | Inr rc \<Rightarrow>
               seq (sleep self (1 / 2) (a\<lparr>trace := trace a @ [Visit i (fst rc) (snd rc)]\<rparr>))
                 (\<lambda>a. seq (sleep self 1 a)
                   (\<lambda>a. sleep self 0
                      (upd_page self (\<lambda>p. p\<lparr>sample_name := sample_name p + 1\<rparr>)
                         (a\<lparr>trace := trace a @ [Print ''Going'']\<rparr>))))))"

fun photo_loop :: "nat \<Rightarrow> int list \<Rightarrow> App \<Rightarrow> App outcome" where
  "photo_loop self [] a = Done a"
| "photo_loop self (i # is) a =
     (if running (pages a self)
      then seq (photo_body self i a) (\<lambda>a. photo_loop self is a)
      else photo_loop self is a)"

definition goto_and_photo_row :: "nat \<Rightarrow> int \<Rightarrow> int \<Rightarrow> App \<Rightarrow> App outcome" where
  "goto_and_photo_row self start end a = photo_loop self [start..end - 1] a"

text \<open>
  \<^verbatim>\<open>datetime.timedelta(hours=h)\<close> in microseconds; OverflowError outside the range of days
  a timedelta can hold.
\<close>

definition timedelta_hours :: "int \<Rightarrow> py_error + int" where
  "timedelta_hours h =
     (if - 999999999 \<le> h div 24 \<and> h div 24 \<le> 999999999
      then Inr (h * 3600000000) else Inl OverflowError)"

text \<open>Lines 837 to 842 of \<open>run_cycle\<close>: the wait between two cycles.\<close>

definition cycle_wait :: "nat \<Rightarrow> int \<Rightarrow> App \<Rightarrow> App outcome" where
  "cycle_wait self sample_size a =
     (let time_now = clock a
      in case start_time (pages a self) of
           None \<Rightarrow> Raised TypeError a
         | Some started \<Rightarrow>
             (case phase_duration (pages a self) of
                None \<Rightarrow> Raised ValueError a
              | Some hours \<Rightarrow>
                  (case timedelta_hours hours of
                     Inl e \<Rightarrow> Raised e a
                   | Inr duration \<Rightarrow>
                       if time_now - started < duration
                       then (case phase1_interval (pages a self) of
                               None \<Rightarrow> Raised ValueError a
                             | Some minutes \<Rightarrow>
                                 sleep self (of_int (max (minutes * 60 - sample_size * 25) 0)) a)
                       else (case phase2_interval (pages a self) of
                               None \<Rightarrow> Raised ValueError a
                             | Some minutes \<Rightarrow>
                                 sleep self (of_int (max (minutes * 60 - sample_size * 25) 0)) a))))"

definition run_cycle :: "nat \<Rightarrow> App \<Rightarrow> App outcome" where
  "run_cycle self a =
     (if running (pages a self) then
        (let sample_size = selected_sample_size a;
             skip_row1 = skip_row a;
             a = upd_page self (\<lambda>p. p\<lparr>sample_name := 1\<rparr>) a;
             cols = sample_size div 2;
             a = upd_page self (\<lambda>p. p\<lparr>count := count p + 1\<rparr>) a;
             a = upd_page self
                   (\<lambda>p. p\<lparr>info_label :=
                        ''Program running '' @ [LF] @ ''Cycle number: '' @ py_str (count p)\<rparr>) a
         in seq (sleep self 0 a)
              (\<lambda>a. seq (goto_and_photo_row self skip_row1 (cols + skip_row1) a)
                (\<lambda>a. seq (goto_and_photo_row self (12 - skip_row1 - cols) (12 - skip_row1) a)
                  (\<lambda>a. seq (cycle_wait self sample_size a)
                    (\<lambda>a. Done (a\<lparr>trace := trace a @ [After 1000 self]\<rparr>))))))
      else Done a)"

definition run_program :: "nat \<Rightarrow> App \<Rightarrow> App outcome" where
  "run_program self a =
     (let a = upd_page self (\<lambda>p. p\<lparr>run_button := ''Stop''\<rparr>) a;
          a = upd_page self
                (\<lambda>p. p\<lparr>info_label :=
                     ''Program running. '' @ [LF] @ py_str (count p) @ '' cycles made''\<rparr>) a;
          a = upd_page self (\<lambda>p. p\<lparr>entries_state := ''disable''\<rparr>) a;
          a = upd_page self (\<lambda>p. p\<lparr>running := True\<rparr>) a;
          a = upd_page self (\<lambda>p. p\<lparr>start_time := Some (clock a)\<rparr>) a
      in run_cycle self a)"

text \<open>The indices of the table entries read, in the order of the reads.\<close>

fun visited :: "event list \<Rightarrow> int list" where
  "visited [] = []"
| "visited (Visit i r c # es) = i # visited es"
| "visited (e # es) = visited es"

text \<open>
  A state for the examples: the application as it is after \<^verbatim>\<open>run_program\<close> has set the
  flags of page 0 and before its first cycle, with the preset table for both cameras.
\<close>

definition started_page :: RunPage where
  "started_page =
     new_RunPage\<lparr>run_button := ''Stop'', entries_state := ''disable'', running := True,
                 start_time := Some 0,
                 info_label := ''Program running. '' @ [LF] @ ''0 cycles made''\<rparr>"

definition started_app :: "int \<Rightarrow> int \<Rightarrow> action list list \<Rightarrow> App" where
  "started_app n skip acts =
     \<lparr>locations = [PyList preset_locations, PyList preset_locations],
      files = Map.empty, side = new_SidePage,
      selected_sample_size = n, skip_row = skip,
      pages = (\<lambda>p. started_page), frames_RunPage = Some 0, fresh = 1,
      clock = 0, trace = [], pending = acts\<rparr>"

section \<open>Vocabulary of the proofs\<close>

text \<open>
  None of the following is part of the program. \<open>coordinate_rows\<close> are the table rows that
  \<open>update_locs\<close> builds for coordinates typed as unpadded decimals; \<open>flat\<close> lists the
  strings of a table in file order; the character classes describe what such commands
  are made of.
\<close>

definition coordinate_rows :: "(int \<times> int) list \<Rightarrow> row list" where
  "coordinate_rows cs = map (\<lambda>c. (''g2'' @ py_str (snd c), ''g1'' @ py_str (fst c))) cs"

definition flat :: "row list \<Rightarrow> string list" where
  "flat rs = concat (map (\<lambda>row. [fst row, snd row]) rs)"

definition ascii_digit :: "char \<Rightarrow> bool" where
  "ascii_digit c = (c \<in> set ''0123456789'')"

definition numeric :: "char \<Rightarrow> bool" where
  "numeric c = (c \<noteq> CR \<and> c \<noteq> LF \<and> c \<noteq> NUL \<and> c \<noteq> CHR ''g'' \<and> byte c < 0x80)"

definition plain :: "char \<Rightarrow> bool" where
  "plain c = (c \<noteq> CR \<and> c \<noteq> LF \<and> c \<noteq> NUL \<and> byte c < 0x80)"

definition example_coordinates :: "(int \<times> int) list" where
  "example_coordinates =
     [(500, 29000), (10400, 29000), (20200, 29000), (30400, 29000), (40400, 29000), (59000, 29000),
      (59000, 22100), (40400, 22100), (30400, 22100), (20200, 22100), (10400, 22100), (0, 0)]"

definition short_file :: string where
  "short_file = file_lines (coordinate_rows (take 11 example_coordinates)) @ ''g229000'' @ crlf"

definition left_selected :: SidePage where
  "left_selected = new_SidePage\<lparr>selected_camera := ''Left''\<rparr>"

text \<open>
  For the cycle: \<open>core\<close> are the fields of a page that no handler writes; \<open>steps self is a r\<close>
  says of an outcome \<open>r\<close> reached from \<open>a\<close> that the page is still allocated with the same
  core, that the events added hold no re-arming, that the indices read are a prefix of
  \<open>is\<close> (all of it when \<open>r\<close> is a normal return), that a blocked outcome ends with a sleep,
  and that a page alive at the start is destroyed at the end exactly when the outcome is
  blocked. \<open>cycle_start\<close> and \<open>cycle_body\<close> cut \<open>run_cycle\<close> in two: the assignments before
  the first sleep, and the statements from there up to the re-arming. \<open>quiet self a\<close> holds
  when no action of the user is pending, the table of the Right camera has 12 entries
  and the entries of the page hold integers, the phase duration within its range.
\<close>

definition core :: "RunPage \<Rightarrow> int \<times> bool \<times> int option \<times> int option \<times> int option \<times> int option" where
  "core p = (count p, running p, start_time p, phase_duration p, phase1_interval p, phase2_interval p)"

definition is_after :: "event \<Rightarrow> bool" where
  "is_after e = (case e of After n p \<Rightarrow> True | _ \<Rightarrow> False)"

definition is_sleep :: "event \<Rightarrow> bool" where
  "is_sleep e = (case e of Sleep n \<Rightarrow> True | _ \<Rightarrow> False)"

definition steps :: "nat \<Rightarrow> int list \<Rightarrow> App \<Rightarrow> App outcome \<Rightarrow> bool" where
  "steps self is a r =
     (self < fresh (state_of r)
      \<and> core (pages (state_of r) self) = core (pages a self)
      \<and> (\<exists>es. trace (state_of r) = trace a @ es
            \<and> (\<forall>e\<in>set es. \<not> is_after e)
            \<and> (\<exists>rest. is = visited es @ rest \<and> (is_done r \<longrightarrow> rest = []))
            \<and> (is_blocked r \<longrightarrow> es \<noteq> [] \<and> is_sleep (last es)))
      \<and> (\<not> destroyed (pages a self) \<longrightarrow> (is_blocked r \<longleftrightarrow> destroyed (pages (state_of r) self))))"

definition cycle_body :: "nat \<Rightarrow> int \<Rightarrow> int \<Rightarrow> App \<Rightarrow> App outcome" where
  "cycle_body self sample_size skip_row1 a =
     seq (sleep self 0 a)
       (\<lambda>a. seq (goto_and_photo_row self skip_row1 (sample_size div 2 + skip_row1) a)
         (\<lambda>a. seq (goto_and_photo_row self (12 - skip_row1 - sample_size div 2) (12 - skip_row1) a)
           (\<lambda>a. cycle_wait self sample_size a)))"

definition cycle_start :: "nat \<Rightarrow> App \<Rightarrow> App" where
  "cycle_start self a =
     upd_page self (\<lambda>p. p\<lparr>info_label :=
          ''Program running '' @ [LF] @ ''Cycle number: '' @ py_str (count p)\<rparr>)
       (upd_page self (\<lambda>p. p\<lparr>count := count p + 1\<rparr>)
          (upd_page self (\<lambda>p. p\<lparr>sample_name := 1\<rparr>) a))"

definition quiet :: "nat \<Rightarrow> App \<Rightarrow> bool" where
  "quiet self a =
     (pending a = []
      \<and> (\<exists>tab. getitem (locations a) 1 = Inr tab \<and> length (rows_of tab) = 12)
      \<and> start_time (pages a self) \<noteq> None
      \<and> (\<exists>h. phase_duration (pages a self) = Some h \<and> 0 \<le> h \<and> h \<le> 1000000)
      \<and> phase1_interval (pages a self) \<noteq> None
      \<and> phase2_interval (pages a self) \<noteq> None)"

section \<open>Properties of the location store\<close>

lemma digit_char_digit: "ascii_digit (digit_char d)"
  by (simp add: digit_char_def ascii_digit_def)

lemma digits_all_digit: "\<forall>c\<in>set (digits n). ascii_digit c"
proof (induction n rule: digits.induct)
  case (1 n)
  show ?case
  proof (cases "n < 10")
    case True
    then show ?thesis by (subst digits.simps) (simp add: digit_char_digit)
  next
    case False
    with 1 show ?thesis by (subst digits.simps) (simp add: digit_char_digit)
  qed
qed

lemma digits_nonempty: "digits n \<noteq> []"
  by (subst digits.simps) simp

lemma ascii_digit_props:
  "ascii_digit c \<Longrightarrow> c \<noteq> CR \<and> c \<noteq> LF \<and> c \<noteq> NUL \<and> c \<noteq> CHR ''g'' \<and> byte c < 0x80 \<and> \<not> cont c"
  by (auto simp: ascii_digit_def CR_def LF_def NUL_def byte_def cont_def between_def)

lemma py_str_numeric: "\<forall>c\<in>set (py_str i). numeric c"
  using digits_all_digit ascii_digit_props
  by (auto simp: py_str_def numeric_def byte_def CR_def LF_def NUL_def)

lemma py_str_nonempty: "py_str i \<noteq> []"
  by (simp add: py_str_def digits_nonempty)

lemma numeric_props: "numeric c \<Longrightarrow> \<not> cont c \<and> c \<notin> set [CHR ''g'', CR, LF] \<and> c \<notin> set [NUL] \<and> c \<notin> set [LF]"
  by (auto simp: numeric_def cont_def between_def)

lemma rstrip_keep:
  assumes "s \<noteq> []" "last s \<notin> set chars"
  shows "rstrip chars s = s"
proof -
  obtain ys y where s: "s = ys @ [y]" using assms(1) by (metis rev_exhaust)
  with assms(2) have "y \<notin> set chars" by simp
  then show ?thesis by (simp add: rstrip_def s)
qed

lemma rstrip_append:
  assumes "set t \<subseteq> set chars"
  shows "rstrip chars (s @ t) = rstrip chars s"
proof -
  have "dropWhile (\<lambda>c. c \<in> set chars) (rev t @ rev s) = dropWhile (\<lambda>c. c \<in> set chars) (rev s)"
    by (rule dropWhile_append2) (use assms in auto)
  then show ?thesis by (simp add: rstrip_def)
qed

lemma rstrip_none:
  assumes "set s \<inter> set chars = {}"
  shows "rstrip chars s = s"
proof (cases "s = []")
  case True
  then show ?thesis by (simp add: rstrip_def)
next
  case False
  then have "last s \<notin> set chars" using assms last_in_set by fastforce
  with False show ?thesis by (rule rstrip_keep)
qed

lemma strip_command:
  assumes "\<forall>c\<in>set s. numeric c" "s \<noteq> []" "numeric k"
  shows "strip [CHR ''g'', CR, LF] (CHR ''g'' # k # s) = k # s"
    and "strip [CHR ''g'', CR, LF] (CHR ''g'' # k # s @ crlf) = k # s"
proof -
  have l: "last (k # s) \<notin> set [CHR ''g'', CR, LF]"
    using assms numeric_props by (metis last_in_set list.distinct(1) last_ConsR)
  have k: "k \<notin> set [CHR ''g'', CR, LF]" using assms numeric_props by blast
  have a: "rstrip [CHR ''g'', CR, LF] (k # s) = k # s"
    using l by (intro rstrip_keep) simp_all
  show "strip [CHR ''g'', CR, LF] (CHR ''g'' # k # s) = k # s"
    using k a by (simp add: strip_def)
  have "rstrip [CHR ''g'', CR, LF] ((k # s) @ crlf) = rstrip [CHR ''g'', CR, LF] (k # s)"
    by (rule rstrip_append) (simp add: crlf_def)
  with a have "rstrip [CHR ''g'', CR, LF] ((k # s) @ crlf) = k # s" by simp
  then show "strip [CHR ''g'', CR, LF] (CHR ''g'' # k # s @ crlf) = k # s"
    using k by (simp add: strip_def)
qed

lemma cp_tl_command: "\<forall>c\<in>set s. numeric c \<Longrightarrow> cp_tl (k # s) = s"
  by (cases s) (auto simp: numeric_props)

lemma decode_display_py_str:
  "x_entry_var (set_x_and_y (''g1'' @ py_str x) (''g2'' @ py_str y) sp) = py_str x"
  "y_entry_var (set_x_and_y (''g1'' @ py_str x) (''g2'' @ py_str y) sp) = py_str y"
  "x_entry_var (set_x_and_y (''g1'' @ py_str x @ crlf) (''g2'' @ py_str y @ crlf) sp) = py_str x"
  "y_entry_var (set_x_and_y (''g1'' @ py_str x @ crlf) (''g2'' @ py_str y @ crlf) sp) = py_str y"
  using strip_command [OF py_str_numeric py_str_nonempty, of "CHR ''1''" x]
        strip_command [OF py_str_numeric py_str_nonempty, of "CHR ''2''" y]
        cp_tl_command [OF py_str_numeric]
  by (simp_all add: set_x_and_y_def numeric_def CR_def LF_def NUL_def byte_def)

lemma digit_char_inj: "a < 10 \<Longrightarrow> b < 10 \<Longrightarrow> digit_char a = digit_char b \<Longrightarrow> a = b"
  by (simp add: digit_char_def split: if_splits) arith

lemma digits_length: "length (digits n) = 1 \<longleftrightarrow> n < 10"
  by (subst digits.simps) (simp add: digits_nonempty)

lemma digits_inj: "digits n = digits m \<Longrightarrow> n = m"
proof (induction n arbitrary: m rule: digits.induct)
  case (1 n)
  have len: "n < 10 \<longleftrightarrow> m < 10"
    using 1(2) digits_length by metis
  show ?case
  proof (cases "n < 10")
    case True
    with len 1(2) show ?thesis
      by (subst (asm) digits.simps, subst (asm) (2) digits.simps) (simp add: digit_char_inj)
  next
    case False
    with len have m: "\<not> m < 10" by simp
    from 1(2) have "digits (n div 10) @ [digit_char (n mod 10)] = digits (m div 10) @ [digit_char (m mod 10)]"
      using False m by (subst (asm) digits.simps, subst (asm) (2) digits.simps) simp
    then have "digits (n div 10) = digits (m div 10)" "digit_char (n mod 10) = digit_char (m mod 10)"
      by simp_all
    then have "n div 10 = m div 10" "n mod 10 = m mod 10"
      using 1(1) [OF False] digit_char_inj [of "n mod 10" "m mod 10"] by simp_all
    then show ?thesis by (metis div_mult_mod_eq)
  qed
qed

lemma digits_no_minus: "digits n \<noteq> CHR ''-'' # t"
proof
  assume "digits n = CHR ''-'' # t"
  then have "CHR ''-'' \<in> set (digits n)" by simp
  then have "ascii_digit (CHR ''-'')" using digits_all_digit by blast
  then show False by (simp add: ascii_digit_def)
qed

lemma py_str_inj: "py_str i = py_str j \<Longrightarrow> i = j"
  using digits_no_minus [of "nat i" "digits (nat (- j))"]
        digits_no_minus [of "nat j" "digits (nat (- i))"]
        digits_inj [of "nat i" "nat j"] digits_inj [of "nat (- i)" "nat (- j)"]
  by (auto simp: py_str_def split: if_splits)

lemma numeric_plain: "numeric c \<Longrightarrow> plain c"
  by (simp add: numeric_def plain_def)

lemma splitlines_from_line:
  "CR \<notin> set l \<Longrightarrow> LF \<notin> set l \<Longrightarrow>
   splitlines_from cur (l @ CR # LF # rest) = (cur @ l) # splitlines_from [] rest"
  by (induction l arbitrary: cur) (auto simp: CR_def LF_def)

lemma splitlines_from_lines:
  "\<forall>l\<in>set ls. CR \<notin> set l \<and> LF \<notin> set l \<Longrightarrow>
   splitlines_from [] (concat (map (\<lambda>l. l @ crlf) ls)) = ls"
  by (induction ls) (simp_all add: splitlines_from_line crlf_def)

lemma file_lines_flat: "file_lines rs = concat (map (\<lambda>l. l @ crlf) (flat rs))"
  by (induction rs) (simp_all add: file_lines_def flat_def)

lemma pairs_flat: "pairs (map f (flat rs)) = map (\<lambda>row. (f (fst row), f (snd row))) rs"
  by (induction rs) (simp_all add: flat_def)

lemma length_flat: "length (flat rs) = 2 * length rs"
  by (induction rs) (simp_all add: flat_def)

lemma ascii_utf8_ok: "\<forall>c\<in>set s. byte c < 0x80 \<Longrightarrow> utf8_ok s"
  by (induction s) simp_all

lemma decode_all_plain:
  "\<forall>l\<in>set ls. \<forall>c\<in>set l. plain c \<Longrightarrow> decode_all ls = Inr ls"
proof (induction ls)
  case Nil
  then show ?case by simp
next
  case (Cons l ls)
  have ok: "utf8_ok l" using Cons.prems by (intro ascii_utf8_ok) (simp add: plain_def)
  have "set l \<inter> set [LF] = {}" using Cons.prems by (auto simp: plain_def)
  then have "rstrip [LF] l = l" by (rule rstrip_none)
  with ok Cons show ?case by (simp add: decode_utf8_def)
qed

lemma cp_take_all: "cp_length s \<le> n \<Longrightarrow> cp_take n s = s"
  by (induction s arbitrary: n) (auto simp: cp_length_def split: nat.splits if_splits)

lemma foldr_max_ge: "x \<in> set xs \<Longrightarrow> x \<le> foldr max xs (0::nat)"
  by (induction xs) auto

lemma np_elem_plain:
  assumes "\<forall>c\<in>set s. plain c" "cp_length s \<le> w"
  shows "np_elem w s = s"
proof -
  have "set s \<inter> set [NUL] = {}" using assms(1) by (auto simp: plain_def)
  then have "rstrip [NUL] s = s" by (rule rstrip_none)
  then show ?thesis using assms(2) by (simp add: np_elem_def cp_take_all)
qed

lemma reshape_plain:
  assumes "length rs = 12" "\<forall>l\<in>set (flat rs). \<forall>c\<in>set l. plain c"
  shows "\<exists>w. np_array_reshape_12_2 (flat rs) = Inr (NdArray w rs)"
proof -
  let ?w = "foldr max (map cp_length (flat rs)) 0"
  have "\<forall>l\<in>set (flat rs). np_elem ?w l = l"
    using assms(2) by (auto intro!: np_elem_plain foldr_max_ge)
  then have "map (np_elem ?w) (flat rs) = flat rs" by (simp add: map_idI)
  then have "pairs (map (np_elem ?w) (flat rs)) = rs"
    using pairs_flat [of "\<lambda>x. x" rs] by simp
  then show ?thesis using assms(1) by (simp add: np_array_reshape_12_2_def length_flat Let_def)
qed

lemma plain_eol: "plain c \<Longrightarrow> c \<noteq> CR \<and> c \<noteq> LF" by (simp add: plain_def)

lemma load_file_lines:
  assumes "length rs = 12" "\<forall>l\<in>set (flat rs). l \<noteq> [] \<and> (\<forall>c\<in>set l. plain c)"
  shows "\<exists>w. read_sample_locs (fs(path \<mapsto> file_lines rs)) path = Inr (NdArray w rs)"
proof -
  have "\<forall>l\<in>set (flat rs). CR \<notin> set l \<and> LF \<notin> set l"
    using assms(2) plain_eol by blast
  then have sl: "splitlines (file_lines rs) = flat rs"
    by (simp add: splitlines_def file_lines_flat splitlines_from_lines)
  have ne: "filter (\<lambda>b. b \<noteq> []) (flat rs) = flat rs"
    using assms(2) by (simp add: filter_id_conv)
  have dec: "decode_all (flat rs) = Inr (flat rs)"
    using assms(2) by (intro decode_all_plain) blast
  from reshape_plain [OF assms(1)] assms(2) obtain w where
    "np_array_reshape_12_2 (flat rs) = Inr (NdArray w rs)" by blast
  then show ?thesis by (simp add: read_sample_locs_def sl ne dec)
qed

lemma command_plain:
  assumes "plain k"
  shows "\<forall>c\<in>set (CHR ''g'' # k # py_str i). plain c"
proof -
  have "plain (CHR ''g'')" by (simp add: plain_def CR_def LF_def NUL_def byte_def)
  then show ?thesis using assms py_str_numeric numeric_plain by auto
qed

lemma flat_coordinate_rows:
  assumes "l \<in> set (flat (coordinate_rows cs))"
  shows "l \<noteq> [] \<and> (\<forall>c\<in>set l. plain c)"
proof -
  have p1: "plain (CHR ''1'')" and p2: "plain (CHR ''2'')"
    by (simp_all add: plain_def CR_def LF_def NUL_def byte_def)
  from assms obtain c where "l = ''g2'' @ py_str (snd c) \<or> l = ''g1'' @ py_str (fst c)"
    by (auto simp: flat_def coordinate_rows_def)
  then show ?thesis
    using command_plain [OF p1, of "fst c"] command_plain [OF p2, of "snd c"] by auto
qed

lemma decode_all_length: "decode_all bs = Inr ss \<Longrightarrow> length ss = length bs"
  by (induction bs arbitrary: ss) (auto split: sum.splits)

lemma decode_all_error: "decode_all bs = Inl e \<Longrightarrow> e = UnicodeDecodeError"
  by (induction bs) (auto simp: decode_utf8_def split: sum.splits if_splits)

lemma splitlines_from_no_eol:
  "CR \<notin> set cur \<Longrightarrow> LF \<notin> set cur \<Longrightarrow> l \<in> set (splitlines_from cur s)
   \<Longrightarrow> CR \<notin> set l \<and> LF \<notin> set l"
proof (induction cur s rule: splitlines_from.induct)
  case (1 cur)
  then show ?case by (cases "cur = []") simp_all
next
  case (2 cur c cs)
  show ?case
  proof (cases "c = LF")
    case True
    with 2(7) have "l = cur \<or> l \<in> set (splitlines_from [] cs)" by simp
    then show ?thesis using 2(1) [OF True] 2(5,6) by auto
  next
    case nl: False
    show ?thesis
    proof (cases "c = CR")
      case cr: True
      show ?thesis
      proof (cases cs)
        case Nil
        with 2(7) nl cr have "l = cur" by simp
        then show ?thesis using 2(5,6) by simp
      next
        case (Cons d ds)
        show ?thesis
        proof (cases "d = LF")
          case True
          with 2(7) nl cr Cons have "l = cur \<or> l \<in> set (splitlines_from [] ds)" by simp
          then show ?thesis using 2(2) [OF nl cr Cons True] 2(5,6) by auto
        next
          case False
          with 2(7) nl cr Cons have "l = cur \<or> l \<in> set (splitlines_from [] cs)" by simp
          then show ?thesis using 2(3) [OF nl cr Cons False] 2(5,6) by auto
        qed
      qed
    next
      case False
      with 2(7) nl have "l \<in> set (splitlines_from (cur @ [c]) cs)" by simp
      then show ?thesis using 2(4) [OF nl False] 2(5,6) nl False by simp
    qed
  qed
qed

lemma splitlines_no_eol: "l \<in> set (splitlines s) \<Longrightarrow> CR \<notin> set l"
  unfolding splitlines_def using splitlines_from_no_eol[of "[]" l s] by simp

lemma rstrip_subset: "set (rstrip chars s) \<subseteq> set s"
proof -
  have "set (dropWhile (\<lambda>c. c \<in> set chars) (rev s)) \<subseteq> set (rev s)"
    by (rule set_dropWhileD [THEN subsetI]) 
  then show ?thesis by (simp add: rstrip_def)
qed

lemma cp_take_subset: "set (cp_take n s) \<subseteq> set s"
  by (induction n s rule: cp_take.induct) (auto split: nat.splits)

lemma np_elem_subset: "set (np_elem w s) \<subseteq> set s"
  unfolding np_elem_def using rstrip_subset cp_take_subset by fast

lemma decode_all_no_cr:
  "decode_all bs = Inr ss \<Longrightarrow> \<forall>b\<in>set bs. CR \<notin> set b \<Longrightarrow> \<forall>s\<in>set ss. CR \<notin> set s"
proof (induction bs arbitrary: ss)
  case Nil
  then show ?case by simp
next
  case (Cons b bs)
  then show ?case
    using rstrip_subset [of "[LF]" b]
    by (auto simp: decode_utf8_def split: sum.splits if_splits)
qed

lemma pairs_fst: "p \<in> set (pairs xs) \<Longrightarrow> fst p \<in> set xs"
  by (induction xs rule: pairs.induct) auto

lemma loaded_rows_no_cr:
  assumes "fs f = Some content" "read_sample_locs fs f = Inr t" "r \<in> set (rows_of t)"
  shows "CR \<notin> set (fst r)"
proof -
  let ?bv = "filter (\<lambda>b. b \<noteq> []) (splitlines content)"
  from assms(1,2) obtain ss where d: "decode_all ?bv = Inr ss"
    and t: "np_array_reshape_12_2 ss = Inr t"
    by (auto simp: read_sample_locs_def Let_def split: sum.splits)
  have "\<forall>b\<in>set ?bv. CR \<notin> set b" by (auto dest: splitlines_no_eol)
  with d have ss: "\<forall>s\<in>set ss. CR \<notin> set s" by (rule decode_all_no_cr)
  from t obtain w where "rows_of t = pairs (map (np_elem w) ss)"
    by (auto simp: np_array_reshape_12_2_def Let_def split: if_splits)
  with assms(3) have "fst r \<in> set (map (np_elem w) ss)" using pairs_fst by metis
  then obtain s where "s \<in> set ss" "fst r = np_elem w s" by auto
  then show ?thesis using ss np_elem_subset by fastforce
qed

lemma short_file_lines: "length (filter (\<lambda>l. l \<noteq> []) (splitlines short_file)) = 23"
  by (simp add: short_file_def example_coordinates_def coordinate_rows_def file_lines_def
      splitlines_def crlf_def CR_def LF_def py_str_def digits.simps digit_char_def)

text \<open>
  What \<open>update_locs\<close> stores for a coordinate typed as unpadded decimals, in a table
  that is a Python list: the pair that \<open>coordinate_rows\<close> lists.
\<close>

lemma update_locs_stores_row:
  assumes "selected_sample sp = Some n" "1 \<le> n" "n \<le> 12"
      and "x_entry_var sp = py_str x" "y_entry_var sp = py_str y"
      and "cam = convert_camera (selected_camera sp)"
      and "getitem locs cam = Inr (PyList rs)" "length rs = 12"
      and "getitem (location_files sp) cam = Inr path"
  shows "update_locs sp (locs, fs) =
           Done (locs[nat cam := PyList (rs[nat (n - 1) := (''g2'' @ py_str y, ''g1'' @ py_str x)])],
                 fs(path \<mapsto> file_lines (rs[nat (n - 1) := (''g2'' @ py_str y, ''g1'' @ py_str x)])))"
proof -
  have c: "cam = 0 \<or> cam = 1" using assms(6) by (simp add: convert_camera_def)
  have l: "nat cam < length locs" "0 \<le> cam"
    using assms(7) c by (auto simp: getitem_def split: if_splits)
  have s: "setitem rs (n - 1) (''g2'' @ py_str y, ''g1'' @ py_str x)
      = Inr (rs[nat (n - 1) := (''g2'' @ py_str y, ''g1'' @ py_str x)])"
    using assms(2,3,8) by (simp add: setitem_def)
  have g: "getitem (locs[nat cam := PyList (rs[nat (n - 1) := (''g2'' @ py_str y, ''g1'' @ py_str x)])]) cam
      = Inr (PyList (rs[nat (n - 1) := (''g2'' @ py_str y, ''g1'' @ py_str x)]))"
    using l by (simp add: getitem_def)
  show ?thesis
    using assms(1,4,5,7,9) s g
    by (simp add: update_locs_def save_locs_def Let_def assms(6) [symmetric])
qed

section \<open>Properties of the cycle\<close>

lemma visited_append: "visited (xs @ ys) = visited xs @ visited ys"
  by (induction xs rule: visited.induct) simp_all

lemma create_runpage_keeps:
  assumes "self < fresh a"
  shows "self < fresh (create_runpage a)"
    and "core (pages (create_runpage a) self) = core (pages a self)"
    and "trace (create_runpage a) = trace a"
    and "destroyed (pages a self) \<Longrightarrow> destroyed (pages (create_runpage a) self)"
    and "frames_RunPage a = Some self \<Longrightarrow> destroyed (pages (create_runpage a) self)"
  using assms
  by (auto simp: create_runpage_def upd_page_def core_def Let_def split: option.splits)

lemma stop_program_keeps:
  assumes "self < fresh a"
  shows "self < fresh (stop_program p a)"
    and "core (pages (stop_program p a) self) = core (pages a self)"
    and "trace (stop_program p a) = trace a"
    and "destroyed (pages a self) \<Longrightarrow> destroyed (pages (stop_program p a) self)"
    and "frames_RunPage a = Some self \<Longrightarrow> destroyed (pages (stop_program p a) self)"
  using assms
  by (auto simp: stop_program_def create_runpage_def upd_page_def core_def Let_def split: option.splits)

lemma handle_keeps:
  assumes "self < fresh a"
  shows "self < fresh (handle act a)"
    and "core (pages (handle act a) self) = core (pages a self)"
    and "trace (handle act a) = trace a"
    and "destroyed (pages a self) \<Longrightarrow> destroyed (pages (handle act a) self)"
  using assms stop_program_keeps [OF assms]
  by (cases act; auto simp: Let_def split: option.splits)+

lemma fold_handle_keeps:
  assumes "self < fresh a"
  shows "self < fresh (fold handle acts a)
       \<and> core (pages (fold handle acts a) self) = core (pages a self)
       \<and> trace (fold handle acts a) = trace a
       \<and> (destroyed (pages a self) \<longrightarrow> destroyed (pages (fold handle acts a) self))"
  using assms
proof (induction acts arbitrary: a)
  case Nil
  then show ?case by simp
next
  case (Cons act acts)
  from handle_keeps [OF Cons.prems, of act] Cons.IH [of "handle act a"]
  show ?case by simp
qed

lemma sleep_state:
  "\<exists>b. (sleep self t a = Done b \<or> sleep self t a = Blocked b)
     \<and> (sleep self t a = Blocked b \<longleftrightarrow> \<not> destroyed (pages a self) \<and> destroyed (pages b self))
     \<and> b = (case pending a of
              [] \<Rightarrow> a\<lparr>trace := trace a @ [Sleep (int_of_time (t * 1000))],
                       clock := clock a + 1000 * max (int_of_time (t * 1000)) 0\<rparr>
            | acts # rest \<Rightarrow>
                fold handle acts
                  (a\<lparr>trace := trace a @ [Sleep (int_of_time (t * 1000))],
                     clock := clock a + 1000 * max (int_of_time (t * 1000)) 0,
                     pending := rest\<rparr>))"
  by (cases "pending a") (simp_all add: sleep_def Let_def)

lemma sleep_steps:
  assumes "self < fresh a"
  shows "steps self [] a (sleep self t a)"
proof -
  define ms where "ms = int_of_time (t * 1000)"
  from sleep_state [of self t a] obtain b where
    r: "sleep self t a = Done b \<or> sleep self t a = Blocked b"
    and bl: "sleep self t a = Blocked b \<longleftrightarrow> \<not> destroyed (pages a self) \<and> destroyed (pages b self)"
    and b: "b = (case pending a of
              [] \<Rightarrow> a\<lparr>trace := trace a @ [Sleep ms], clock := clock a + 1000 * max ms 0\<rparr>
            | acts # rest \<Rightarrow>
                fold handle acts
                  (a\<lparr>trace := trace a @ [Sleep ms], clock := clock a + 1000 * max ms 0,
                     pending := rest\<rparr>))"
    unfolding ms_def by blast
  have k: "self < fresh b \<and> core (pages b self) = core (pages a self)
       \<and> trace b = trace a @ [Sleep ms]
       \<and> (destroyed (pages a self) \<longrightarrow> destroyed (pages b self))"
  proof (cases "pending a")
    case Nil
    then show ?thesis using assms b by simp
  next
    case (Cons acts rest)
    define a1 where "a1 = a\<lparr>trace := trace a @ [Sleep ms], clock := clock a + 1000 * max ms 0,
                     pending := rest\<rparr>"
    have "self < fresh a1" using assms by (simp add: a1_def)
    from fold_handle_keeps [OF this, of acts] show ?thesis
      using Cons b by (simp add: a1_def)
  qed
  have st: "state_of (sleep self t a) = b" using r by auto
  have ib: "is_blocked (sleep self t a) \<longleftrightarrow> sleep self t a = Blocked b" using r by auto
  have ev: "\<forall>e\<in>set [Sleep ms]. \<not> is_after e" "is_sleep (last [Sleep ms])" "[Sleep ms] \<noteq> []"
    "[] = visited [Sleep ms] @ []"
    by (simp_all add: is_after_def is_sleep_def)
  have "\<exists>es. trace b = trace a @ es \<and> (\<forall>e\<in>set es. \<not> is_after e)
         \<and> (\<exists>rest. [] = visited es @ rest \<and> (is_done (sleep self t a) \<longrightarrow> rest = []))
         \<and> (is_blocked (sleep self t a) \<longrightarrow> es \<noteq> [] \<and> is_sleep (last es))"
    using k ev by (intro exI [of _ "[Sleep ms]"]) simp
  then show ?thesis
    unfolding steps_def st ib using k bl by blast
qed

lemma sleep_stop:
  assumes "self < fresh a" "\<not> destroyed (pages a self)" "frames_RunPage a = Some self"
      and "run_button (pages a self) = ''Stop''" "pending a = (PressStop # acts) # rest"
  shows "is_blocked (sleep self t a)"
proof -
  define ms where "ms = int_of_time (t * 1000)"
  define a1 where "a1 = a\<lparr>trace := trace a @ [Sleep ms], clock := clock a + 1000 * max ms 0, pending := rest\<rparr>"
  have f1: "self < fresh a1" "frames_RunPage a1 = Some self" "run_button (pages a1 self) = ''Stop''"
    using assms by (simp_all add: a1_def)
  have h: "handle PressStop a1 = stop_program self a1" using f1 by simp
  have d: "destroyed (pages (stop_program self a1) self)"
    using stop_program_keeps(5) [OF f1(1) f1(2)] .
  have "self < fresh (stop_program self a1)" using stop_program_keeps(1) [OF f1(1)] .
  from fold_handle_keeps [OF this, of acts] d
  have "destroyed (pages (fold handle acts (stop_program self a1)) self)" by simp
  then show ?thesis
    using assms(2,5) h by (simp add: sleep_def Let_def a1_def ms_def)
qed

lemma steps_seq:
  assumes "steps self xs a r" and "\<And>b. r = Done b \<Longrightarrow> steps self ys b (f b)"
  shows "steps self (xs @ ys) a (seq r f)"
proof (cases r)
  case (Done b)
  from assms(1) Done obtain es where es: "trace b = trace a @ es" "\<forall>e\<in>set es. \<not> is_after e"
      "xs = visited es" and c: "self < fresh b" "core (pages b self) = core (pages a self)"
      and d: "\<not> destroyed (pages a self) \<longrightarrow> \<not> destroyed (pages b self)"
    by (auto simp: steps_def)
  from assms(2) [OF Done] obtain es' rest where es': "trace (state_of (f b)) = trace b @ es'"
      "\<forall>e\<in>set es'. \<not> is_after e" "ys = visited es' @ rest" "is_done (f b) \<longrightarrow> rest = []"
      "is_blocked (f b) \<longrightarrow> es' \<noteq> [] \<and> is_sleep (last es')"
      and c': "self < fresh (state_of (f b))" "core (pages (state_of (f b)) self) = core (pages b self)"
      and d': "\<not> destroyed (pages b self) \<longrightarrow> (is_blocked (f b) \<longleftrightarrow> destroyed (pages (state_of (f b)) self))"
    by (auto simp: steps_def)
  have t: "trace (state_of (f b)) = trace a @ (es @ es')" using es(1) es'(1) by simp
  have v: "xs @ ys = visited (es @ es') @ rest" using es(3) es'(3) by (simp add: visited_append)
  have n: "\<forall>e\<in>set (es @ es'). \<not> is_after e" using es(2) es'(2) by auto
  have l: "is_blocked (f b) \<longrightarrow> es @ es' \<noteq> [] \<and> is_sleep (last (es @ es'))"
    using es'(5) by simp
  have "\<exists>es. trace (state_of (f b)) = trace a @ es \<and> (\<forall>e\<in>set es. \<not> is_after e)
         \<and> (\<exists>rest. xs @ ys = visited es @ rest \<and> (is_done (f b) \<longrightarrow> rest = []))
         \<and> (is_blocked (f b) \<longrightarrow> es \<noteq> [] \<and> is_sleep (last es))"
    using t v n l es'(4) by (intro exI [of _ "es @ es'"]) blast
  then show ?thesis
    unfolding steps_def Done seq.simps
    using c c' d d' by simp
next
  case (Raised e b)
  with assms(1) show ?thesis by (auto simp: steps_def)
next
  case (Blocked b)
  with assms(1) show ?thesis by (auto simp: steps_def)
qed

lemma seq_assoc: "seq (seq r f) g = seq r (\<lambda>x. seq (f x) g)"
  by (cases r) simp_all

lemma run_cycle_body:
  "running (pages a self) \<Longrightarrow>
   run_cycle self a =
     seq (cycle_body self (selected_sample_size a) (skip_row a) (cycle_start self a))
       (\<lambda>a. Done (a\<lparr>trace := trace a @ [After 1000 self]\<rparr>))"
  by (simp add: run_cycle_def cycle_body_def cycle_start_def Let_def seq_assoc)

lemma steps_seq':
  assumes "steps self xs a r"
      and "\<And>b. r = Done b \<Longrightarrow> self < fresh b \<Longrightarrow> core (pages b self) = core (pages a self)
              \<Longrightarrow> steps self ys b (f b)"
  shows "steps self (xs @ ys) a (seq r f)"
proof (rule steps_seq [OF assms(1)])
  fix b assume "r = Done b"
  with assms(1) have "self < fresh b" "core (pages b self) = core (pages a self)"
    by (simp_all add: steps_def)
  with assms(2) \<open>r = Done b\<close> show "steps self ys b (f b)" by blast
qed

lemma steps_pre:
  assumes "steps self xs a' r" and "trace a' = trace a @ es0" and "\<forall>e\<in>set es0. \<not> is_after e"
      and "core (pages a' self) = core (pages a self)"
      and "destroyed (pages a' self) = destroyed (pages a self)"
  shows "steps self (visited es0 @ xs) a r"
proof -
  from assms(1) obtain es rest where es: "trace (state_of r) = trace a' @ es"
      "\<forall>e\<in>set es. \<not> is_after e" "xs = visited es @ rest" "is_done r \<longrightarrow> rest = []"
      "is_blocked r \<longrightarrow> es \<noteq> [] \<and> is_sleep (last es)"
    by (auto simp: steps_def)
  have "\<exists>es. trace (state_of r) = trace a @ es \<and> (\<forall>e\<in>set es. \<not> is_after e)
         \<and> (\<exists>rest. visited es0 @ xs = visited es @ rest \<and> (is_done r \<longrightarrow> rest = []))
         \<and> (is_blocked r \<longrightarrow> es \<noteq> [] \<and> is_sleep (last es))"
    using es assms(2,3) by (intro exI [of _ "es0 @ es"]) (auto simp: visited_append)
  then show ?thesis
    using assms(1,4,5) by (simp add: steps_def)
qed

lemma steps_raised: "self < fresh a \<Longrightarrow> steps self xs a (Raised e a)"
  by (simp add: steps_def)

lemma photo_body_steps:
  assumes "self < fresh a"
  shows "steps self [i] a (photo_body self i a)"
proof (cases "getitem (locations a) 1")
  case (Inl e)
  then show ?thesis using assms by (simp add: photo_body_def steps_raised)
next
  case tab: (Inr tab)
  show ?thesis
  proof (cases "getitem (rows_of tab) i")
    case (Inl e)
    then show ?thesis using assms tab by (simp add: photo_body_def steps_raised)
  next
    case (Inr rc)
    define a1 where "a1 = a\<lparr>trace := trace a @ [Visit i (fst rc) (snd rc)]\<rparr>"
    define k3 where "k3 = (\<lambda>a. sleep self 0
                      (upd_page self (\<lambda>p. p\<lparr>sample_name := sample_name p + 1\<rparr>)
                         (a\<lparr>trace := trace a @ [Print ''Going'']\<rparr>)))"
    have pb: "photo_body self i a = seq (sleep self (1 / 2) a1) (\<lambda>a. seq (sleep self 1 a) k3)"
      using tab Inr by (simp add: photo_body_def a1_def k3_def)
    have s3: "steps self [] b (k3 b)" if "self < fresh b" for b :: App
    proof -
      define b1 where "b1 = upd_page self (\<lambda>p. p\<lparr>sample_name := sample_name p + 1\<rparr>)
                         (b\<lparr>trace := trace b @ [Print ''Going'']\<rparr>)"
      have "self < fresh b1" using that by (simp add: b1_def upd_page_def)
      then have "steps self [] b1 (sleep self 0 b1)" by (rule sleep_steps)
      then have "steps self (visited [Print ''Going''] @ []) b (sleep self 0 b1)"
        by (rule steps_pre) (simp_all add: b1_def upd_page_def core_def is_after_def)
      then show ?thesis by (simp add: k3_def b1_def)
    qed
    have s2: "steps self ([] @ []) b (seq (sleep self 1 b) k3)" if "self < fresh b" for b :: App
      by (rule steps_seq' [OF sleep_steps [OF that]]) (rule s3)
    have f1: "self < fresh a1" using assms by (simp add: a1_def)
    have "steps self ([] @ []) a1 (seq (sleep self (1 / 2) a1) (\<lambda>a. seq (sleep self 1 a) k3))"
    proof (rule steps_seq' [OF sleep_steps [OF f1]])
      fix b :: App assume "self < fresh b"
      from s2 [OF this] show "steps self [] b (seq (sleep self 1 b) k3)" by simp
    qed
    then have "steps self [] a1 (seq (sleep self (1 / 2) a1) (\<lambda>a. seq (sleep self 1 a) k3))"
      by simp
    then have "steps self (visited [Visit i (fst rc) (snd rc)] @ []) a (photo_body self i a)"
      unfolding pb by (rule steps_pre) (simp_all add: a1_def is_after_def)
    then show ?thesis by simp
  qed
qed

lemma photo_loop_steps:
  assumes "self < fresh a" "running (pages a self)"
  shows "steps self is a (photo_loop self is a)"
  using assms
proof (induction "is" arbitrary: a)
  case Nil
  then show ?case by (simp add: steps_def)
next
  case (Cons i "is")
  have "steps self ([i] @ is) a (seq (photo_body self i a) (\<lambda>a. photo_loop self is a))"
  proof (rule steps_seq' [OF photo_body_steps [OF Cons.prems(1)]])
    fix b :: App assume "self < fresh b" "core (pages b self) = core (pages a self)"
    then have "running (pages b self)" using Cons.prems(2) by (simp add: core_def)
    with \<open>self < fresh b\<close> show "steps self is b (photo_loop self is b)" by (rule Cons.IH)
  qed
  then show ?case using Cons.prems(2) by simp
qed

lemma cycle_wait_steps:
  assumes "self < fresh a"
  shows "steps self [] a (cycle_wait self n a)"
  using assms sleep_steps [OF assms] steps_raised [OF assms]
  by (simp add: cycle_wait_def Let_def split: option.splits sum.splits)

lemma cycle_body_steps:
  assumes "self < fresh a" "running (pages a self)"
  shows "steps self ([k..n div 2 + k - 1] @ [12 - k - n div 2..12 - k - 1]) a (cycle_body self n k a)"
proof -
  have r: "running (pages b self)" if "core (pages b self) = core (pages a self)" for b :: App
    using that assms(2) by (simp add: core_def)
  have g2: "steps self ([12 - k - n div 2..12 - k - 1] @ []) b
       (seq (goto_and_photo_row self (12 - k - n div 2) (12 - k) b) (\<lambda>a. cycle_wait self n a))"
    if "self < fresh b" "running (pages b self)" for b :: App
    unfolding goto_and_photo_row_def
    by (rule steps_seq' [OF photo_loop_steps [OF that]]) (rule cycle_wait_steps)
  have g1: "steps self ([k..n div 2 + k - 1] @ [12 - k - n div 2..12 - k - 1]) b
       (seq (goto_and_photo_row self k (n div 2 + k) b)
         (\<lambda>a. seq (goto_and_photo_row self (12 - k - n div 2) (12 - k) a) (\<lambda>a. cycle_wait self n a)))"
    if "self < fresh b" "running (pages b self)" for b :: App
    unfolding goto_and_photo_row_def
  proof (rule steps_seq' [OF photo_loop_steps [OF that]])
    fix c :: App assume "self < fresh c" "core (pages c self) = core (pages b self)"
    then have "running (pages c self)" using that(2) by (simp add: core_def)
    from g2 [OF \<open>self < fresh c\<close> this]
    show "steps self [12 - k - n div 2..12 - k - 1]
        c (seq (photo_loop self [12 - k - n div 2..12 - k - 1] c) (cycle_wait self n))"
      by (simp add: goto_and_photo_row_def)
  qed
  have "steps self ([] @ [k..n div 2 + k - 1] @ [12 - k - n div 2..12 - k - 1]) a (cycle_body self n k a)"
    unfolding cycle_body_def
    by (rule steps_seq' [OF sleep_steps [OF assms(1)]]) (use g1 r in blast)
  then show ?thesis by simp
qed

lemma cycle_start_keeps:
  "fresh (cycle_start self a) = fresh a"
  "trace (cycle_start self a) = trace a"
  "running (pages (cycle_start self a) self) = running (pages a self)"
  "destroyed (pages (cycle_start self a) self) = destroyed (pages a self)"
  "count (pages (cycle_start self a) self) = count (pages a self) + 1"
  by (simp_all add: cycle_start_def upd_page_def)

lemma run_cycle_summary:
  assumes "self < fresh a" "running (pages a self)"
  shows "count (pages (state_of (run_cycle self a)) self) = count (pages a self) + 1
       \<and> (\<exists>es. trace (state_of (run_cycle self a)) = trace a @ es
            \<and> (\<exists>rest. [skip_row a..selected_sample_size a div 2 + skip_row a - 1]
                         @ [12 - skip_row a - selected_sample_size a div 2..12 - skip_row a - 1]
                         = visited es @ rest
                  \<and> (is_done (run_cycle self a) \<longrightarrow> rest = []))
            \<and> (is_blocked (run_cycle self a) \<longrightarrow>
                  es \<noteq> [] \<and> is_sleep (last es) \<and> (\<forall>e\<in>set es. \<not> is_after e))
            \<and> (is_done (run_cycle self a) \<longrightarrow> es \<noteq> [] \<and> last es = After 1000 self))
       \<and> (\<not> destroyed (pages a self) \<longrightarrow>
            (is_blocked (run_cycle self a) \<longleftrightarrow> destroyed (pages (state_of (run_cycle self a)) self)))"
proof -
  define n where "n = selected_sample_size a"
  define k where "k = skip_row a"
  define a0 where "a0 = cycle_start self a"
  define r0 where "r0 = cycle_body self n k a0"
  define L where "L = [k..n div 2 + k - 1] @ [12 - k - n div 2..12 - k - 1]"
  have a0: "self < fresh a0" "running (pages a0 self)" "trace a0 = trace a"
    "destroyed (pages a0 self) = destroyed (pages a self)"
    "count (pages a0 self) = count (pages a self) + 1"
    using assms by (simp_all add: a0_def cycle_start_keeps)
  have rc: "run_cycle self a = seq r0 (\<lambda>a. Done (a\<lparr>trace := trace a @ [After 1000 self]\<rparr>))"
    using run_cycle_body [OF assms(2)] by (simp add: r0_def n_def k_def a0_def)
  have "steps self L a0 r0"
    unfolding L_def r0_def by (rule cycle_body_steps [OF a0(1,2)])
  then obtain es rest where s: "self < fresh (state_of r0)"
      "core (pages (state_of r0) self) = core (pages a0 self)"
      "trace (state_of r0) = trace a0 @ es" "\<forall>e\<in>set es. \<not> is_after e"
      "L = visited es @ rest" "is_done r0 \<longrightarrow> rest = []"
      "is_blocked r0 \<longrightarrow> es \<noteq> [] \<and> is_sleep (last es)"
      "\<not> destroyed (pages a0 self) \<longrightarrow> (is_blocked r0 \<longleftrightarrow> destroyed (pages (state_of r0) self))"
    unfolding steps_def by blast
  have cnt: "count (pages (state_of r0) self) = count (pages a self) + 1"
    using s(2) a0(5) by (simp add: core_def)
  show ?thesis
  proof (cases r0)
    case (Done b)
    have r: "run_cycle self a = Done (b\<lparr>trace := trace b @ [After 1000 self]\<rparr>)"
      using rc Done by simp
    have "\<exists>es'. trace b @ [After 1000 self] = trace a @ es'
            \<and> (\<exists>rest. L = visited es' @ rest \<and> rest = [])
            \<and> es' \<noteq> [] \<and> last es' = After 1000 self"
      using s(3,5,6) Done a0(3)
      by (intro exI [of _ "es @ [After 1000 self]"]) (simp add: visited_append)
    then show ?thesis
      unfolding r using cnt s(8) Done a0(4) by (simp add: L_def n_def k_def)
  next
    case (Raised e b)
    have r: "run_cycle self a = Raised e b" using rc Raised by simp
    have "\<exists>es'. trace b = trace a @ es' \<and> (\<exists>rest. L = visited es' @ rest)"
      using s(3,5) Raised a0(3) by auto
    then show ?thesis
      unfolding r using cnt s(8) Raised a0(4) by (simp add: L_def n_def k_def)
  next
    case (Blocked b)
    have r: "run_cycle self a = Blocked b" using rc Blocked by simp
    have "\<exists>es'. trace b = trace a @ es' \<and> (\<exists>rest. L = visited es' @ rest)
            \<and> es' \<noteq> [] \<and> is_sleep (last es') \<and> (\<forall>e\<in>set es'. \<not> is_after e)"
      using s(3,4,5,7) Blocked a0(3) by auto
    then show ?thesis
      unfolding r using cnt s(8) Blocked a0(4) by (simp add: L_def n_def k_def)
  qed
qed

lemma run_cycle_visited:
  assumes "self < fresh a" "running (pages a self)" "is_done (run_cycle self a)"
  shows "visited (trace (state_of (run_cycle self a))) =
         visited (trace a) @ [skip_row a..selected_sample_size a div 2 + skip_row a - 1]
           @ [12 - skip_row a - selected_sample_size a div 2..12 - skip_row a - 1]"
  using run_cycle_summary [OF assms(1,2)] assms(3) by (auto simp: visited_append)

lemma run_cycle_visited_subset:
  assumes "self < fresh a" "running (pages a self)"
  shows "\<exists>es. trace (state_of (run_cycle self a)) = trace a @ es
     \<and> set (visited es) \<subseteq> {skip_row a..selected_sample_size a div 2 + skip_row a - 1}
           \<union> {12 - skip_row a - selected_sample_size a div 2..12 - skip_row a - 1}"
proof -
  from run_cycle_summary [OF assms] obtain es rest where
    t: "trace (state_of (run_cycle self a)) = trace a @ es"
    and v: "[skip_row a..selected_sample_size a div 2 + skip_row a - 1]
                         @ [12 - skip_row a - selected_sample_size a div 2..12 - skip_row a - 1]
                         = visited es @ rest" by blast
  have "set (visited es) \<subseteq> set (visited es @ rest)" by simp
  also have "\<dots> = {skip_row a..selected_sample_size a div 2 + skip_row a - 1}
           \<union> {12 - skip_row a - selected_sample_size a div 2..12 - skip_row a - 1}"
    unfolding v [symmetric] by simp
  finally show ?thesis using t by blast
qed

lemma goto_visited:
  assumes "self < fresh a" "running (pages a self)" "is_done (goto_and_photo_row self start end a)"
  shows "visited (trace (state_of (goto_and_photo_row self start end a))) =
         visited (trace a) @ [start..end - 1]"
  using photo_loop_steps [OF assms(1,2), of "[start..end - 1]"] assms(3)
  by (auto simp: steps_def goto_and_photo_row_def visited_append)

subsection \<open>A cycle the user leaves alone returns\<close>

lemma quiet_sleep:
  assumes "quiet self a"
  shows "\<exists>b. sleep self t a = Done b \<and> quiet self b \<and> running (pages b self) = running (pages a self)"
  using assms by (simp add: sleep_def quiet_def Let_def)

lemma quiet_photo_body:
  assumes "quiet self a" "0 \<le> i" "i < 12"
  shows "\<exists>b. photo_body self i a = Done b \<and> quiet self b
            \<and> running (pages b self) = running (pages a self)"
proof -
  from assms(1) obtain tab where tab: "getitem (locations a) 1 = Inr tab" "length (rows_of tab) = 12"
    by (auto simp: quiet_def)
  have g: "getitem (rows_of tab) i = Inr (rows_of tab ! nat i)"
    using assms(2,3) tab(2) by (simp add: getitem_def)
  define a1 where "a1 = a\<lparr>trace := trace a @ [Visit i (fst (rows_of tab ! nat i)) (snd (rows_of tab ! nat i))]\<rparr>"
  have q1: "quiet self a1" "running (pages a1 self) = running (pages a self)"
    using assms(1) by (simp_all add: a1_def quiet_def)
  from quiet_sleep [OF q1(1), of "1 / 2"] obtain b1 where
    b1: "sleep self (1 / 2) a1 = Done b1" "quiet self b1" "running (pages b1 self) = running (pages a1 self)"
    by blast
  from quiet_sleep [OF b1(2), of 1] obtain b2 where
    b2: "sleep self 1 b1 = Done b2" "quiet self b2" "running (pages b2 self) = running (pages b1 self)"
    by blast
  define b3 where "b3 = upd_page self (\<lambda>p. p\<lparr>sample_name := sample_name p + 1\<rparr>)
                         (b2\<lparr>trace := trace b2 @ [Print ''Going'']\<rparr>)"
  have q3: "quiet self b3" "running (pages b3 self) = running (pages b2 self)"
    using b2(2) by (simp_all add: b3_def quiet_def upd_page_def)
  from quiet_sleep [OF q3(1), of 0] obtain b4 where
    b4: "sleep self 0 b3 = Done b4" "quiet self b4" "running (pages b4 self) = running (pages b3 self)"
    by blast
  have "photo_body self i a = Done b4"
    using tab(1) g b1(1) b2(1) b4(1) by (simp add: photo_body_def a1_def b3_def)
  then show ?thesis using b4 q3 b2 b1 q1 by simp
qed

lemma quiet_photo_loop:
  assumes "quiet self a" "\<forall>i\<in>set is. 0 \<le> i \<and> i < 12"
  shows "\<exists>b. photo_loop self is a = Done b \<and> quiet self b
            \<and> running (pages b self) = running (pages a self)"
  using assms
proof (induction "is" arbitrary: a)
  case Nil
  then show ?case by simp
next
  case (Cons i "is")
  show ?case
  proof (cases "running (pages a self)")
    case True
    from quiet_photo_body [OF Cons.prems(1), of i] Cons.prems(2) obtain b where
      b: "photo_body self i a = Done b" "quiet self b" "running (pages b self) = running (pages a self)"
      by auto
    from Cons.IH [OF b(2)] Cons.prems(2) obtain c where
      "photo_loop self is b = Done c" "quiet self c" "running (pages c self) = running (pages b self)"
      by auto
    then show ?thesis using True b by simp
  next
    case False
    from Cons.IH [OF Cons.prems(1)] Cons.prems(2) show ?thesis using False by simp
  qed
qed

lemma quiet_cycle_wait:
  assumes "quiet self a"
  shows "is_done (cycle_wait self n a)"
proof -
  from assms obtain st h m1 m2 where f: "start_time (pages a self) = Some st"
    "phase_duration (pages a self) = Some h" "0 \<le> h" "h \<le> 1000000"
    "phase1_interval (pages a self) = Some m1" "phase2_interval (pages a self) = Some m2"
    by (auto simp: quiet_def)
  have "- 999999999 \<le> h div 24 \<and> h div 24 \<le> 999999999" using f(3,4) by presburger
  then have td: "timedelta_hours h = Inr (h * 3600000000)" by (simp add: timedelta_hours_def)
  from quiet_sleep [OF assms] have "\<And>t. is_done (sleep self t a)" by (metis is_done.simps(1))
  then show ?thesis using f td by (simp add: cycle_wait_def)
qed

lemma quiet_run_cycle:
  assumes "quiet self a" "selected_sample_size a \<in> {4, 6, 8, 10, 12}" "skip_row a \<in> {0, 1}"
  shows "is_done (run_cycle self a)"
proof (cases "running (pages a self)")
  case False
  then show ?thesis by (simp add: run_cycle_def)
next
  case True
  define n where "n = selected_sample_size a"
  define k where "k = skip_row a"
  have q0: "quiet self (cycle_start self a)"
    using assms(1) by (simp add: quiet_def cycle_start_def upd_page_def)
  from quiet_sleep [OF q0, of 0] obtain b0 where
    b0: "sleep self 0 (cycle_start self a) = Done b0" "quiet self b0" by blast
  have r1: "\<forall>i\<in>set [k..n div 2 + k - 1]. 0 \<le> i \<and> i < 12"
    using assms(2,3) by (auto simp: n_def k_def)
  have r2: "\<forall>i\<in>set [12 - k - n div 2..12 - k - 1]. 0 \<le> i \<and> i < 12"
    using assms(2,3) by (auto simp: n_def k_def)
  from quiet_photo_loop [OF b0(2) r1] obtain b1 where
    b1: "goto_and_photo_row self k (n div 2 + k) b0 = Done b1" "quiet self b1"
    by (auto simp: goto_and_photo_row_def)
  from quiet_photo_loop [OF b1(2) r2] obtain b2 where
    b2: "goto_and_photo_row self (12 - k - n div 2) (12 - k) b1 = Done b2" "quiet self b2"
    by (auto simp: goto_and_photo_row_def)
  from quiet_cycle_wait [OF b2(2), of n] obtain b3 where b3: "cycle_wait self n b2 = Done b3"
    by (cases "cycle_wait self n b2") simp_all
  have "cycle_body self n k (cycle_start self a) = Done b3"
    using b0(1) b1(1) b2(1) b3 by (simp add: cycle_body_def)
  then show ?thesis
    using run_cycle_body [OF True] by (simp add: n_def k_def)
qed

lemma started_app_quiet: "quiet 0 (started_app n k [])"
  by (simp add: quiet_def started_app_def started_page_def new_RunPage_def getitem_def
      preset_locations_def)

subsection \<open>Runs of a cycle from the example state\<close>

text \<open>
  The cycles of the example state that the user leaves alone return; in a cycle of four
  samples in which the Stop button is pressed during the second settle sleep of the
  first visit, the sleep does not return.
\<close>

lemmas run_defs = run_cycle_def goto_and_photo_row_def photo_body_def sleep_def cycle_wait_def
  timedelta_hours_def upd_page_def started_app_def started_page_def new_RunPage_def
  preset_locations_def getitem_def int_of_time_def Let_def stop_program_def create_runpage_def
  py_str_def digits.simps digit_char_def

lemma started_app_ok:
  "0 < fresh (started_app n k acts)" "running (pages (started_app n k acts) 0)"
  "\<not> destroyed (pages (started_app n k acts) 0)"
  "selected_sample_size (started_app n k acts) = n" "skip_row (started_app n k acts) = k"
  "count (pages (started_app n k acts) 0) = 0" "trace (started_app n k acts) = []"
  by (simp_all add: started_app_def started_page_def new_RunPage_def)

lemma quiet_cycle_done:
  "n \<in> {4, 6, 8, 10, 12} \<Longrightarrow> k \<in> {0, 1} \<Longrightarrow> is_done (run_cycle 0 (started_app n k []))"
  using quiet_run_cycle [OF started_app_quiet, of n k] by (simp add: started_app_ok)

lemma quiet_cycle_visited:
  assumes "n \<in> {4, 6, 8, 10, 12}" "k \<in> {0, 1}"
  shows "visited (trace (state_of (run_cycle 0 (started_app n k []))))
         = [k..n div 2 + k - 1] @ [12 - k - n div 2..12 - k - 1]"
  using run_cycle_visited [of 0 "started_app n k []"] quiet_cycle_done [OF assms]
  by (simp add: started_app_ok)

lemma stopped_cycle:
  "is_blocked (run_cycle 0 (started_app 4 0 [[], [], [PressStop]]))
   \<and> visited (trace (state_of (run_cycle 0 (started_app 4 0 [[], [], [PressStop]])))) = [0]
   \<and> count (pages (state_of (run_cycle 0 (started_app 4 0 [[], [], [PressStop]]))) 0) = 1
   \<and> trace (state_of (run_cycle 0 (started_app 4 0 [[], [], [PressStop]])))
       = [Sleep 0, Visit 0 (''g229000'' @ crlf) (''g10500'' @ crlf), Sleep 500, Sleep 1000]"
  by (simp add: run_defs upto_rec1)

lemma not_is_after: "\<not> is_after e \<Longrightarrow> e \<noteq> After n p"
  by (auto simp: is_after_def)

lemma is_sleep_ex: "is_sleep e \<Longrightarrow> \<exists>ms. e = Sleep ms"
  by (cases e) (simp_all add: is_sleep_def)

lemma sleep_trace:
  assumes "self < fresh a"
  shows "trace (state_of (sleep self t a)) = trace a @ [Sleep (int_of_time (t * 1000))]"
proof -
  from sleep_state [of self t a] obtain b where
    r: "sleep self t a = Done b \<or> sleep self t a = Blocked b"
    and b: "b = (case pending a of
              [] \<Rightarrow> a\<lparr>trace := trace a @ [Sleep (int_of_time (t * 1000))],
                       clock := clock a + 1000 * max (int_of_time (t * 1000)) 0\<rparr>
            | acts # rest \<Rightarrow>
                fold handle acts
                  (a\<lparr>trace := trace a @ [Sleep (int_of_time (t * 1000))],
                     clock := clock a + 1000 * max (int_of_time (t * 1000)) 0,
                     pending := rest\<rparr>))"
    by blast
  have "trace b = trace a @ [Sleep (int_of_time (t * 1000))]"
  proof (cases "pending a")
    case Nil
    then show ?thesis using b by simp
  next
    case (Cons acts rest)
    define a1 where "a1 = a\<lparr>trace := trace a @ [Sleep (int_of_time (t * 1000))],
                     clock := clock a + 1000 * max (int_of_time (t * 1000)) 0,
                     pending := rest\<rparr>"
    have "self < fresh a1" using assms by (simp add: a1_def)
    from fold_handle_keeps [OF this, of acts] show ?thesis
      using Cons b by (simp add: a1_def)
  qed
  then show ?thesis using r by auto
qed

lemma int_of_time_of_int: "int_of_time (of_int w * 1000) = w * 1000"
proof -
  have "(of_int w * 1000 :: rat) = of_int (w * 1000)" by simp
  then show ?thesis unfolding int_of_time_def by (simp only: floor_of_int ceiling_of_int if_cancel)
qed

section \<open>The claims\<close>

text \<open>
  Claim C1, as stated, fails: when Stop is pressed in the middle of the first sweep, the
  counter of the page has already been incremented for the cycle that is aborted.
\<close>

theorem stop_mid_sweep_counterexample:
  "is_blocked (run_cycle 0 (started_app 4 0 [[], [], [PressStop]]))
   \<and> visited (trace (state_of (run_cycle 0 (started_app 4 0 [[], [], [PressStop]])))) = [0]
   \<and> count (pages (started_app 4 0 [[], [], [PressStop]]) 0) = 0
   \<and> count (pages (state_of (run_cycle 0 (started_app 4 0 [[], [], [PressStop]]))) 0) = 1
   \<and> count (pages (state_of (run_cycle 0 (started_app 4 0 [[], [], [PressStop]]))) 0)
       \<noteq> count (pages (started_app 4 0 [[], [], [PressStop]]) 0)"
  using stopped_cycle by (simp add: started_app_ok)

text \<open>
  Claim C1, amended. The counter is incremented once at the start of every cycle, before
  the first sweep, so it counts the aborted cycle too. When \<open>stop_program\<close> is run for
  the page during a suspension of its cycle (the page is then destroyed), the cycle is
  never resumed: nothing is executed after the sleep during which the stop was handled,
  and the cycle is not re-armed. A sleep during which the Stop button of the page is
  pressed is such a suspension.
\<close>

theorem stop_during_cycle:
  assumes "self < fresh a" "running (pages a self)" "\<not> destroyed (pages a self)"
  shows "count (pages (state_of (run_cycle self a)) self) = count (pages a self) + 1
       \<and> (destroyed (pages (state_of (run_cycle self a)) self) \<longleftrightarrow> is_blocked (run_cycle self a))
       \<and> (is_blocked (run_cycle self a) \<longrightarrow>
            (\<exists>es ms. trace (state_of (run_cycle self a)) = trace a @ es @ [Sleep ms]
               \<and> (\<forall>n p. After n p \<notin> set es)))
       \<and> (\<forall>b t acts rest.
             self < fresh b \<and> \<not> destroyed (pages b self) \<and> frames_RunPage b = Some self
             \<and> run_button (pages b self) = ''Stop'' \<and> pending b = (PressStop # acts) # rest
           \<longrightarrow> is_blocked (sleep self t b))"
proof -
  from run_cycle_summary [OF assms(1,2)] obtain es where
    c: "count (pages (state_of (run_cycle self a)) self) = count (pages a self) + 1"
    and t: "trace (state_of (run_cycle self a)) = trace a @ es"
    and b: "is_blocked (run_cycle self a) \<longrightarrow>
                  es \<noteq> [] \<and> is_sleep (last es) \<and> (\<forall>e\<in>set es. \<not> is_after e)"
    and d: "is_blocked (run_cycle self a) \<longleftrightarrow> destroyed (pages (state_of (run_cycle self a)) self)"
    using assms(3) by blast
  have "\<exists>es' ms. trace (state_of (run_cycle self a)) = trace a @ es' @ [Sleep ms]
               \<and> (\<forall>n p. After n p \<notin> set es')" if bl: "is_blocked (run_cycle self a)"
  proof -
    from b bl have ne: "es \<noteq> []" and sl: "is_sleep (last es)" and na: "\<forall>e\<in>set es. \<not> is_after e"
      by simp_all
    from sl obtain ms where ms: "last es = Sleep ms" using is_sleep_ex by blast
    have es: "es = butlast es @ [Sleep ms]" using ne ms by (metis append_butlast_last_id)
    have "\<forall>e\<in>set (butlast es). \<not> is_after e" using na by (meson in_set_butlastD)
    then have "\<forall>n p. After n p \<notin> set (butlast es)" using not_is_after by blast
    then show ?thesis using t es by metis
  qed
  then show ?thesis using c d sleep_stop by blast
qed

theorem stop_during_cycle_witness:
  "count (pages (state_of (run_cycle 0 (started_app 4 0 [[], [], [PressStop]]))) 0) = 1
   \<and> destroyed (pages (state_of (run_cycle 0 (started_app 4 0 [[], [], [PressStop]]))) 0)
   \<and> is_blocked (run_cycle 0 (started_app 4 0 [[], [], [PressStop]]))
   \<and> (\<exists>es ms. trace (state_of (run_cycle 0 (started_app 4 0 [[], [], [PressStop]])))
          = es @ [Sleep ms] \<and> (\<forall>n p. After n p \<notin> set es))
   \<and> is_blocked (sleep 0 1 (started_app 4 0 [[PressStop]]))"
proof -
  have "frames_RunPage (started_app 4 0 [[PressStop]]) = Some 0"
    "run_button (pages (started_app 4 0 [[PressStop]]) 0) = ''Stop''"
    "pending (started_app 4 0 [[PressStop]]) = (PressStop # []) # []"
    by (simp_all add: started_app_def started_page_def new_RunPage_def)
  then show ?thesis
    using stop_during_cycle [of 0 "started_app 4 0 [[], [], [PressStop]]"] stopped_cycle
      stop_during_cycle [of 0 "started_app 4 0 [[PressStop]]"]
    by (simp add: started_app_ok)
qed

text \<open>
  Claim C2. Both entries of \<open>location_files\<close> name the same file. With the Left camera
  selected, \<open>save_locs\<close> writes the Left table over the file that holds the table of the
  Right camera.
\<close>

theorem save_left_overwrites_right_file:
  "getitem (location_files left_selected) (convert_camera ''Left'') = Inr ''samples_loc.txt''
   \<and> getitem (location_files left_selected) (convert_camera ''Right'') = Inr ''samples_loc.txt''
   \<and> save_locs left_selected
        [PyList preset_locations, PyList (coordinate_rows example_coordinates)]
        [''samples_loc.txt'' \<mapsto> file_lines (coordinate_rows example_coordinates)]
      = Done [''samples_loc.txt'' \<mapsto> file_lines preset_locations]
   \<and> file_lines preset_locations \<noteq> file_lines (coordinate_rows example_coordinates)"
proof -
  have "take 12 (file_lines preset_locations) \<noteq> take 12 (file_lines (coordinate_rows example_coordinates))"
    by (simp add: file_lines_def preset_locations_def coordinate_rows_def example_coordinates_def
        crlf_def CR_def LF_def py_str_def digits.simps digit_char_def)
  then have "file_lines preset_locations \<noteq> file_lines (coordinate_rows example_coordinates)"
    by metis
  then show ?thesis
    by (simp add: left_selected_def new_SidePage_def convert_camera_def getitem_def save_locs_def)
qed

text \<open>
  Claim C3, as stated, fails: \<open>stop_program\<close> does not assign \<open>running\<close>, and on the page
  whose cycle is in flight the flag is still true after the stop.
\<close>

theorem stop_program_flag_counterexample:
  "running (pages (started_app 4 0 []) 0)
   \<and> frames_RunPage (started_app 4 0 []) = Some 0
   \<and> run_button (pages (started_app 4 0 []) 0) = ''Stop''
   \<and> running (pages (stop_program 0 (started_app 4 0 [])) 0)
   \<and> \<not> (running (pages (stop_program 0 (started_app 4 0 [])) 0) = False)"
  by (simp add: stop_program_def create_runpage_def upd_page_def started_app_def started_page_def
      new_RunPage_def Let_def)

text \<open>
  Claim C3, amended. \<open>stop_program\<close>, run for the page the controller shows, leaves the
  \<open>running\<close> flag of that page as it is. It re-enables the entries, destroys the page
  and puts a new page in its place, whose flag is false, whose counters are zero and
  whose button reads Start: the controller is back in Idle, and \<open>run_cycle\<close> on the new
  page does nothing until it is started. The sweep in flight does not observe a flag: the
  sleep during which the Stop button is pressed does not return.
\<close>

theorem stop_program_recreates_page:
  assumes "frames_RunPage a = Some self" "self < fresh a"
  shows "running (pages (stop_program self a) self) = running (pages a self)
       \<and> destroyed (pages (stop_program self a) self)
       \<and> entries_state (pages (stop_program self a) self) = ''normal''
       \<and> frames_RunPage (stop_program self a) = Some (fresh a)
       \<and> fresh a \<noteq> self
       \<and> pages (stop_program self a) (fresh a) = new_RunPage
       \<and> \<not> running new_RunPage \<and> count new_RunPage = 0 \<and> sample_name new_RunPage = 0
       \<and> start_time new_RunPage = None
       \<and> run_button new_RunPage = ''Start'' \<and> entries_state new_RunPage = ''normal''
       \<and> \<not> destroyed new_RunPage
       \<and> (\<forall>t acts rest.
             \<not> destroyed (pages a self) \<and> run_button (pages a self) = ''Stop''
             \<and> pending a = (PressStop # acts) # rest
           \<longrightarrow> is_blocked (sleep self t a))
       \<and> (\<forall>b. \<not> running (pages b (fresh a)) \<longrightarrow> run_cycle (fresh a) b = Done b)"
proof -
  have s: "running (pages (stop_program self a) self) = running (pages a self)
       \<and> destroyed (pages (stop_program self a) self)
       \<and> entries_state (pages (stop_program self a) self) = ''normal''
       \<and> frames_RunPage (stop_program self a) = Some (fresh a)
       \<and> fresh a \<noteq> self
       \<and> pages (stop_program self a) (fresh a) = new_RunPage"
    using assms
    by (simp add: stop_program_def create_runpage_def upd_page_def Let_def)
  have n: "\<not> running new_RunPage \<and> count new_RunPage = 0 \<and> sample_name new_RunPage = 0
       \<and> start_time new_RunPage = None
       \<and> run_button new_RunPage = ''Start'' \<and> entries_state new_RunPage = ''normal''
       \<and> \<not> destroyed new_RunPage"
    by (simp add: new_RunPage_def)
  have b: "\<forall>t acts rest.
             \<not> destroyed (pages a self) \<and> run_button (pages a self) = ''Stop''
             \<and> pending a = (PressStop # acts) # rest
           \<longrightarrow> is_blocked (sleep self t a)"
    using sleep_stop [OF assms(2) _ assms(1)] by blast
  have r: "\<forall>b. \<not> running (pages b (fresh a)) \<longrightarrow> run_cycle (fresh a) b = Done b"
    by (simp add: run_cycle_def)
  from s n b r show ?thesis by blast
qed

theorem stop_program_recreates_page_witness:
  "running (pages (stop_program 0 (started_app 4 0 [[PressStop]])) 0)
   \<and> destroyed (pages (stop_program 0 (started_app 4 0 [[PressStop]])) 0)
   \<and> frames_RunPage (stop_program 0 (started_app 4 0 [[PressStop]])) = Some 1
   \<and> pages (stop_program 0 (started_app 4 0 [[PressStop]])) 1 = new_RunPage
   \<and> \<not> running (pages (stop_program 0 (started_app 4 0 [[PressStop]])) 1)
   \<and> is_blocked (sleep 0 1 (started_app 4 0 [[PressStop]]))
   \<and> run_cycle 1 (stop_program 0 (started_app 4 0 [[PressStop]]))
       = Done (stop_program 0 (started_app 4 0 [[PressStop]]))"
proof -
  have h: "frames_RunPage (started_app 4 0 [[PressStop]]) = Some 0"
    "fresh (started_app 4 0 [[PressStop]]) = 1"
    "run_button (pages (started_app 4 0 [[PressStop]]) 0) = ''Stop''"
    "pending (started_app 4 0 [[PressStop]]) = (PressStop # []) # []"
    by (simp_all add: started_app_def started_page_def new_RunPage_def)
  note t = stop_program_recreates_page [of "started_app 4 0 [[PressStop]]" 0]
  have c: "running (pages (stop_program 0 (started_app 4 0 [[PressStop]])) 0)
   \<and> destroyed (pages (stop_program 0 (started_app 4 0 [[PressStop]])) 0)
   \<and> frames_RunPage (stop_program 0 (started_app 4 0 [[PressStop]])) = Some 1
   \<and> pages (stop_program 0 (started_app 4 0 [[PressStop]])) 1 = new_RunPage
   \<and> \<not> running new_RunPage
   \<and> is_blocked (sleep 0 1 (started_app 4 0 [[PressStop]]))"
    using t h by (simp add: started_app_ok)
  then have "\<not> running (pages (stop_program 0 (started_app 4 0 [[PressStop]])) 1)" by simp
  then have "run_cycle 1 (stop_program 0 (started_app 4 0 [[PressStop]]))
       = Done (stop_program 0 (started_app 4 0 [[PressStop]]))"
    using t h by (simp add: started_app_ok)
  with c show ?thesis by simp
qed

text \<open>
  Claim C4, as stated, fails: with 4 samples and the first row skipped the second sweep
  reads the entries 9 and 10, not 7 and 8; with 8 samples and no skip it reads the
  entries 8 to 11, not 4 to 7.
\<close>

theorem sweep_indices_counterexample:
  "is_done (run_cycle 0 (started_app 4 1 []))
   \<and> visited (trace (state_of (run_cycle 0 (started_app 4 1 [])))) = [1, 2] @ [9, 10]
   \<and> visited (trace (state_of (run_cycle 0 (started_app 4 1 [])))) \<noteq> [1, 2] @ [7, 8]
   \<and> is_done (run_cycle 0 (started_app 8 0 []))
   \<and> visited (trace (state_of (run_cycle 0 (started_app 8 0 [])))) = [0, 1, 2, 3] @ [8, 9, 10, 11]
   \<and> visited (trace (state_of (run_cycle 0 (started_app 8 0 [])))) \<noteq> [0, 1, 2, 3] @ [4, 5, 6, 7]"
  using quiet_cycle_done [of 4 1] quiet_cycle_visited [of 4 1]
    quiet_cycle_done [of 8 0] quiet_cycle_visited [of 8 0]
  by (simp add: upto_rec1)

text \<open>
  Claim C4, amended. For every sample size in 4, 6, 8, 10, 12 and skip_row in 0, 1, with
  cols = sample_size div 2, a cycle that returns has read, in this order, the entries
  skip_row up to cols + skip_row - 1 and then 12 - skip_row - cols up to 11 - skip_row; each
  call of \<open>goto_and_photo_row\<close> that returns has read the indices from start up to
  end - 1 in ascending order. For 8 samples without skip these are 0..3 and 8..11, for 4
  samples with skip 1, 2 and 9, 10. A cycle that the user leaves alone does return
  (\<open>quiet_run_cycle\<close>).
\<close>

theorem sweep_indices:
  assumes "n \<in> {4, 6, 8, 10, 12}" "k \<in> {0, 1}"
      and "selected_sample_size a = n" "skip_row a = k"
      and "self < fresh a" "running (pages a self)" "is_done (run_cycle self a)"
  shows "visited (trace (state_of (run_cycle self a)))
           = visited (trace a) @ [k..n div 2 + k - 1] @ [12 - k - n div 2..12 - k - 1]
       \<and> (n = 8 \<and> k = 0 \<longrightarrow> visited (trace (state_of (run_cycle self a)))
           = visited (trace a) @ [0, 1, 2, 3] @ [8, 9, 10, 11])
       \<and> (n = 4 \<and> k = 1 \<longrightarrow> visited (trace (state_of (run_cycle self a)))
           = visited (trace a) @ [1, 2] @ [9, 10])
       \<and> (\<forall>b start end. self < fresh b \<and> running (pages b self)
             \<and> is_done (goto_and_photo_row self start end b)
           \<longrightarrow> visited (trace (state_of (goto_and_photo_row self start end b)))
                 = visited (trace b) @ [start..end - 1])"
proof -
  have v: "visited (trace (state_of (run_cycle self a)))
           = visited (trace a) @ [k..n div 2 + k - 1] @ [12 - k - n div 2..12 - k - 1]"
    using run_cycle_visited [OF assms(5,6,7)] assms(3,4) by simp
  have "n = 8 \<and> k = 0 \<longrightarrow> [k..n div 2 + k - 1] @ [12 - k - n div 2..12 - k - 1]
          = [0, 1, 2, 3] @ [8, 9, 10, 11]"
    by (simp add: upto_rec1)
  moreover have "n = 4 \<and> k = 1 \<longrightarrow> [k..n div 2 + k - 1] @ [12 - k - n div 2..12 - k - 1]
          = [1, 2] @ [9, 10]"
    by (simp add: upto_rec1)
  ultimately show ?thesis using v goto_visited by simp
qed

theorem sweep_indices_witness:
  "is_done (run_cycle 0 (started_app 4 1 []))
   \<and> visited (trace (state_of (run_cycle 0 (started_app 4 1 [])))) = [1, 2] @ [9, 10]
   \<and> is_done (run_cycle 0 (started_app 8 0 []))
   \<and> visited (trace (state_of (run_cycle 0 (started_app 8 0 [])))) = [0, 1, 2, 3] @ [8, 9, 10, 11]"
  using sweep_indices [of 4 1 "started_app 4 1 []" 0] quiet_cycle_done [of 4 1]
    sweep_indices [of 8 0 "started_app 8 0 []" 0] quiet_cycle_done [of 8 0]
  by (simp add: started_app_ok upto_rec1)

text \<open>
  Claim C5. With the three entries holding integers and the phase duration within its
  range, the wait between two cycles is \<open>max (interval - sample_size * 25) 0\<close> seconds,
  where the interval is 60 times the first phase's minutes when the time elapsed since
  the start is strictly less than the phase duration in hours, and 60 times the second
  phase's minutes otherwise. For 5 minutes and 12 samples it is 0 seconds.
\<close>

theorem inter_cycle_wait:
  assumes "self < fresh a"
      and "start_time (pages a self) = Some started"
      and "phase_duration (pages a self) = Some hours" "0 \<le> hours" "hours \<le> 1000000"
      and "phase1_interval (pages a self) = Some m1"
      and "phase2_interval (pages a self) = Some m2"
  shows "cycle_wait self n a =
           sleep self (of_int (max ((if clock a - started < hours * 3600000000 then m1 else m2) * 60
                                     - n * 25) 0)) a
       \<and> trace (state_of (cycle_wait self n a)) =
           trace a @ [Sleep (max ((if clock a - started < hours * 3600000000 then m1 else m2) * 60
                                     - n * 25) 0 * 1000)]
       \<and> (m1 = 5 \<and> n = 12 \<and> clock a - started < hours * 3600000000
            \<longrightarrow> cycle_wait self n a = sleep self 0 a)"
proof -
  have "- 999999999 \<le> hours div 24 \<and> hours div 24 \<le> 999999999"
    using assms(4,5) by presburger
  then have td: "timedelta_hours hours = Inr (hours * 3600000000)"
    by (simp add: timedelta_hours_def)
  have w: "cycle_wait self n a =
           sleep self (of_int (max ((if clock a - started < hours * 3600000000 then m1 else m2) * 60
                                     - n * 25) 0)) a"
    using assms(2,3,6,7) td by (simp add: cycle_wait_def)
  show ?thesis
    unfolding w using sleep_trace [OF assms(1)] by (simp add: int_of_time_of_int)
qed

theorem inter_cycle_wait_witness:
  "cycle_wait 0 12 (started_app 12 0 []) = sleep 0 0 (started_app 12 0 [])
   \<and> trace (state_of (cycle_wait 0 12 (started_app 12 0 []))) = [Sleep 0]
   \<and> trace (state_of (cycle_wait 0 4 (started_app 4 0 []))) = [Sleep 200000]"
proof -
  have h: "start_time (pages (started_app n k []) 0) = Some 0"
    "phase_duration (pages (started_app n k []) 0) = Some 30"
    "phase1_interval (pages (started_app n k []) 0) = Some 5"
    "phase2_interval (pages (started_app n k []) 0) = Some 30"
    "clock (started_app n k []) = 0" for n k
    by (simp_all add: started_app_def started_page_def new_RunPage_def)
  note w12 = inter_cycle_wait [of 0 "started_app 12 0 []" 0 30 5 30 12]
  note w4 = inter_cycle_wait [of 0 "started_app 4 0 []" 0 30 5 30 4]
  have a: "cycle_wait 0 12 (started_app 12 0 []) = sleep 0 0 (started_app 12 0 [])"
    using w12 [THEN conjunct1] by (simp add: h started_app_ok)
  have b: "trace (state_of (cycle_wait 0 12 (started_app 12 0 []))) = [Sleep 0]"
    using w12 [THEN conjunct2, THEN conjunct1] by (simp add: h started_app_ok)
  have c: "trace (state_of (cycle_wait 0 4 (started_app 4 0 []))) = [Sleep 200000]"
    using w4 [THEN conjunct2, THEN conjunct1] by (simp add: h started_app_ok)
  from a b c show ?thesis by blast
qed

text \<open>
  Claim C6. For a coordinate within the stage limits, written as unpadded decimals,
  \<open>set_x_and_y\<close> applied to the commands \<^verbatim>\<open>"g1" + str(x)\<close> and \<^verbatim>\<open>"g2" + str(y)\<close>, with or
  without a trailing CRLF, puts the decimal text of \<open>x\<close> and of \<open>y\<close> back into the two
  entries; no other integer has that text.
\<close>

theorem decode_display_round_trip:
  assumes "0 \<le> x" "x \<le> 59000" "0 \<le> y" "y \<le> 29000"
  shows "x_entry_var (set_x_and_y (''g1'' @ py_str x) (''g2'' @ py_str y) sp) = py_str x
       \<and> y_entry_var (set_x_and_y (''g1'' @ py_str x) (''g2'' @ py_str y) sp) = py_str y
       \<and> x_entry_var (set_x_and_y (''g1'' @ py_str x @ crlf) (''g2'' @ py_str y @ crlf) sp) = py_str x
       \<and> y_entry_var (set_x_and_y (''g1'' @ py_str x @ crlf) (''g2'' @ py_str y @ crlf) sp) = py_str y
       \<and> (\<forall>x'. py_str x' = py_str x \<longrightarrow> x' = x)
       \<and> (\<forall>y'. py_str y' = py_str y \<longrightarrow> y' = y)"
  using decode_display_py_str [of x y sp] py_str_inj by blast

theorem decode_display_round_trip_witness:
  "x_entry_var (set_x_and_y ''g159000'' ''g229000'' new_SidePage) = ''59000''
   \<and> y_entry_var (set_x_and_y ''g159000'' ''g229000'' new_SidePage) = ''29000''
   \<and> x_entry_var (set_x_and_y (''g159000'' @ crlf) (''g229000'' @ crlf) new_SidePage) = ''59000''
   \<and> y_entry_var (set_x_and_y (''g159000'' @ crlf) (''g229000'' @ crlf) new_SidePage) = ''29000''"
proof -
  have x: "py_str 59000 = ''59000''" and y: "py_str 29000 = ''29000''"
    by (simp_all add: py_str_def digits.simps digit_char_def)
  show ?thesis
    using decode_display_round_trip [of 59000 29000 new_SidePage] by (simp add: x y)
qed

text \<open>
  Claim C7. When the selected camera's table holds the command pairs of 12 coordinates
  within the stage limits, \<open>save_locs\<close> followed by \<open>read_sample_locs\<close> on that camera's
  file gives a table with the same 12 pairs in the same order.
\<close>

theorem save_then_load:
  assumes "length cs = 12"
      and "\<forall>c\<in>set cs. 0 \<le> fst c \<and> fst c \<le> 59000 \<and> 0 \<le> snd c \<and> snd c \<le> 29000"
      and "getitem locs (convert_camera (selected_camera sp)) = Inr tab"
      and "rows_of tab = coordinate_rows cs"
      and "getitem (location_files sp) (convert_camera (selected_camera sp)) = Inr path"
  shows "\<exists>fs' w. save_locs sp locs fs = Done fs'
           \<and> read_sample_locs fs' path = Inr (NdArray w (coordinate_rows cs))"
proof -
  have s: "save_locs sp locs fs = Done (fs(path \<mapsto> file_lines (coordinate_rows cs)))"
    using assms(3,4,5) by (simp add: save_locs_def)
  have "length (coordinate_rows cs) = 12" using assms(1) by (simp add: coordinate_rows_def)
  from load_file_lines [OF this, of fs path] flat_coordinate_rows
  obtain w where "read_sample_locs (fs(path \<mapsto> file_lines (coordinate_rows cs))) path
      = Inr (NdArray w (coordinate_rows cs))" by blast
  with s show ?thesis by blast
qed

theorem save_then_load_witness:
  "\<exists>fs' w. save_locs new_SidePage [PyList preset_locations, PyList (coordinate_rows example_coordinates)]
              Map.empty = Done fs'
     \<and> read_sample_locs fs' ''samples_loc.txt'' = Inr (NdArray w (coordinate_rows example_coordinates))"
proof -
  have "getitem [PyList preset_locations, PyList (coordinate_rows example_coordinates)]
          (convert_camera (selected_camera new_SidePage)) = Inr (PyList (coordinate_rows example_coordinates))"
    by (simp add: getitem_def convert_camera_def new_SidePage_def)
  moreover have "getitem (location_files new_SidePage) (convert_camera (selected_camera new_SidePage))
      = Inr ''samples_loc.txt''"
    by (simp add: getitem_def convert_camera_def new_SidePage_def)
  moreover have "length example_coordinates = 12"
    "\<forall>c\<in>set example_coordinates. 0 \<le> fst c \<and> fst c \<le> 59000 \<and> 0 \<le> snd c \<and> snd c \<le> 29000"
    by (simp_all add: example_coordinates_def)
  ultimately show ?thesis
    using save_then_load [of example_coordinates
        "[PyList preset_locations, PyList (coordinate_rows example_coordinates)]" new_SidePage
        "PyList (coordinate_rows example_coordinates)" "''samples_loc.txt''" Map.empty]
    by simp
qed

text \<open>
  Claim C8. When the camera's file exists and does not hold exactly 24 non-empty lines,
  \<open>read_sample_locs\<close> raises (ValueError from the reshape, or UnicodeDecodeError from
  the decoding) and returns no table; the preset table is what it returns exactly when
  the file does not exist.
\<close>

theorem load_malformed_fails:
  "(\<forall>content. fs f = Some content \<and> length (filter (\<lambda>l. l \<noteq> []) (splitlines content)) \<noteq> 24
      \<longrightarrow> read_sample_locs fs f = Inl ValueError \<or> read_sample_locs fs f = Inl UnicodeDecodeError)
   \<and> ((\<exists>t. read_sample_locs fs f = Inr t \<and> rows_of t = preset_locations) \<longleftrightarrow> fs f = None)"
proof (intro conjI allI impI iffI)
  fix content
  assume a: "fs f = Some content \<and> length (filter (\<lambda>l. l \<noteq> []) (splitlines content)) \<noteq> 24"
  show "read_sample_locs fs f = Inl ValueError \<or> read_sample_locs fs f = Inl UnicodeDecodeError"
  proof (cases "decode_all (filter (\<lambda>l. l \<noteq> []) (splitlines content))")
    case (Inl e)
    then show ?thesis using a decode_all_error [OF Inl] by (simp add: read_sample_locs_def)
  next
    case (Inr ss)
    then have "length ss \<noteq> 24" using a decode_all_length by fastforce
    then show ?thesis using a Inr by (simp add: read_sample_locs_def np_array_reshape_12_2_def)
  qed
next
  assume "\<exists>t. read_sample_locs fs f = Inr t \<and> rows_of t = preset_locations"
  then obtain t where t: "read_sample_locs fs f = Inr t" "rows_of t = preset_locations" by blast
  show "fs f = None"
  proof (rule ccontr)
    assume "fs f \<noteq> None"
    then obtain content where c: "fs f = Some content" by blast
    have "(''g229000'' @ crlf, ''g10500'' @ crlf) \<in> set (rows_of t)"
      by (simp add: t(2) preset_locations_def)
    from loaded_rows_no_cr [OF c t(1) this] show False by (simp add: crlf_def)
  qed
next
  assume "fs f = None"
  then show "\<exists>t. read_sample_locs fs f = Inr t \<and> rows_of t = preset_locations"
    by (simp add: read_sample_locs_def)
qed

theorem load_malformed_fails_witness:
  "length (filter (\<lambda>l. l \<noteq> []) (splitlines short_file)) = 23
   \<and> (read_sample_locs [''samples_loc.txt'' \<mapsto> short_file] ''samples_loc.txt'' = Inl ValueError
      \<or> read_sample_locs [''samples_loc.txt'' \<mapsto> short_file] ''samples_loc.txt'' = Inl UnicodeDecodeError)
   \<and> (\<exists>t. read_sample_locs Map.empty ''samples_loc.txt'' = Inr t \<and> rows_of t = preset_locations)"
  using load_malformed_fails [of "[''samples_loc.txt'' \<mapsto> short_file]" "''samples_loc.txt''"]
        load_malformed_fails [of Map.empty "''samples_loc.txt''"]
  by (simp add: short_file_lines)

text \<open>
  Claim C9. For every sample size in 4, 6, 8, 10, 12 and skip_row in 0, 1, both ranges
  passed to \<open>goto_and_photo_row\<close> satisfy 0 \<le> start \<le> end \<le> 12, and every index with
  which a cycle reads the table lies in 0..11, where a table of 12 entries has an
  entry: no read is out of bounds.
\<close>

theorem sweep_ranges_in_grid:
  assumes "n \<in> {4, 6, 8, 10, 12}" "k \<in> {0, 1}"
      and "selected_sample_size a = n" "skip_row a = k"
      and "self < fresh a" "running (pages a self)"
  shows "0 \<le> k \<and> k \<le> n div 2 + k \<and> n div 2 + k \<le> 12
       \<and> 0 \<le> 12 - k - n div 2 \<and> 12 - k - n div 2 \<le> 12 - k \<and> 12 - k \<le> 12
       \<and> (\<exists>es. trace (state_of (run_cycle self a)) = trace a @ es
             \<and> (\<forall>i\<in>set (visited es). 0 \<le> i \<and> i < 12
                  \<and> (\<forall>rows :: row list. length rows = 12 \<longrightarrow> getitem rows i = Inr (rows ! nat i))))"
proof -
  have ar: "0 \<le> k \<and> k \<le> n div 2 + k \<and> n div 2 + k \<le> 12
       \<and> 0 \<le> 12 - k - n div 2 \<and> 12 - k - n div 2 \<le> 12 - k \<and> 12 - k \<le> 12"
    using assms(1,2) by auto
  from run_cycle_visited_subset [OF assms(5,6)] obtain es where
    t: "trace (state_of (run_cycle self a)) = trace a @ es"
    and v: "set (visited es) \<subseteq> {k..n div 2 + k - 1} \<union> {12 - k - n div 2..12 - k - 1}"
    using assms(3,4) by auto
  have "\<forall>i\<in>set (visited es). 0 \<le> i \<and> i < 12" using v ar by fastforce
  then have "\<forall>i\<in>set (visited es). 0 \<le> i \<and> i < 12
                  \<and> (\<forall>rows :: row list. length rows = 12 \<longrightarrow> getitem rows i = Inr (rows ! nat i))"
    by (simp add: getitem_def)
  with t ar show ?thesis by blast
qed

theorem sweep_ranges_in_grid_witness:
  "\<exists>es. trace (state_of (run_cycle 0 (started_app 4 1 []))) = es
      \<and> visited es = [1, 2, 9, 10]
      \<and> (\<forall>i\<in>set (visited es). 0 \<le> i \<and> i < 12
            \<and> (\<forall>rows :: row list. length rows = 12 \<longrightarrow> getitem rows i = Inr (rows ! nat i)))"
  using sweep_ranges_in_grid [of 4 1 "started_app 4 1 []" 0] quiet_cycle_visited [of 4 1]
  by (simp add: started_app_ok upto_rec1)

text \<open>
  Claim C10. With 12 samples and the first row skipped, a cycle that returns has read
  the entries 1 to 6 and then 5 to 10: twelve reads of ten distinct entries, 5 and 6
  read in both sweeps, 0 and 11 in neither.
\<close>

theorem full_size_skip_row_overlap:
  assumes "selected_sample_size a = 12" "skip_row a = 1"
      and "self < fresh a" "running (pages a self)" "is_done (run_cycle self a)"
  shows "visited (trace (state_of (run_cycle self a)))
           = visited (trace a) @ [1, 2, 3, 4, 5, 6] @ [5, 6, 7, 8, 9, 10]
       \<and> length ([1, 2, 3, 4, 5, 6] @ [5, 6, 7, 8, 9, 10 :: int]) = 12
       \<and> card (set ([1, 2, 3, 4, 5, 6] @ [5, 6, 7, 8, 9, 10 :: int])) = 10
       \<and> set [1, 2, 3, 4, 5, 6] \<inter> set [5, 6, 7, 8, 9, 10 :: int] = {5, 6}
       \<and> (0 :: int) \<notin> set ([1, 2, 3, 4, 5, 6] @ [5, 6, 7, 8, 9, 10])
       \<and> (11 :: int) \<notin> set ([1, 2, 3, 4, 5, 6] @ [5, 6, 7, 8, 9, 10])"
proof -
  have "[1..(12::int) div 2 + 1 - 1] @ [12 - 1 - 12 div 2..12 - 1 - 1]
          = [1, 2, 3, 4, 5, 6] @ [5, 6, 7, 8, 9, 10]"
    by (simp add: upto_rec1)
  then have v: "visited (trace (state_of (run_cycle self a)))
           = visited (trace a) @ [1, 2, 3, 4, 5, 6] @ [5, 6, 7, 8, 9, 10]"
    using run_cycle_visited [OF assms(3,4,5)] assms(1,2) by simp
  have s: "set ([1, 2, 3, 4, 5, 6] @ [5, 6, 7, 8, 9, 10 :: int]) = {1, 2, 3, 4, 5, 6, 7, 8, 9, 10}"
    by auto
  have c: "card (set ([1, 2, 3, 4, 5, 6] @ [5, 6, 7, 8, 9, 10 :: int])) = 10"
    unfolding s by simp
  have i: "set [1, 2, 3, 4, 5, 6] \<inter> set [5, 6, 7, 8, 9, 10 :: int] = {5, 6}"
    by auto
  show ?thesis using v c i by simp
qed

theorem full_size_skip_row_overlap_witness:
  "is_done (run_cycle 0 (started_app 12 1 []))
   \<and> visited (trace (state_of (run_cycle 0 (started_app 12 1 []))))
       = [1, 2, 3, 4, 5, 6] @ [5, 6, 7, 8, 9, 10]"
  using full_size_skip_row_overlap [of "started_app 12 1 []" 0] quiet_cycle_done [of 12 1]
  by (simp add: started_app_ok)

end
